theory Spec2Isabelle
  imports Main
begin

section \<open>Data model of the parse-tree cache (server/src/trees.ts)\<close>

text \<open>
  Positions, ranges, points, edits and documents are types of the language-server and
  parser libraries; only the fields that \<^verbatim>\<open>trees.ts\<close> reads are kept. A text is the
  list of its code units, so \<open>length\<close> is the \<^verbatim>\<open>.length\<close> of the source. Offsets and
  lengths are natural numbers, versions are integers.
\<close>

type_synonym uri = string

record position =
  line :: nat
  character :: nat

record lsp_range =
  range_start :: position
  range_end :: position

record point =
  row :: nat
  column :: nat

record edit =
  startPosition :: point
  oldEndPosition :: point
  newEndPosition :: point
  startIndex :: nat
  oldEndIndex :: nat
  newEndIndex :: nat

record document =
  doc_uri :: uri
  doc_version :: int
  doc_text :: string

text \<open>
  Modelled from the spec: the type \<^verbatim>\<open>TextDocumentChange2\<close> of \<^verbatim>\<open>documentStore\<close>, whose
  source is not among the source files. The spec (6) says that each event carries the
  document and a sequence of changes, each with \<^verbatim>\<open>range\<close>, \<^verbatim>\<open>rangeOffset\<close>,
  \<^verbatim>\<open>rangeLength\<close> and \<^verbatim>\<open>text\<close>; these are the fields that \<^verbatim>\<open>_asEdits\<close> reads.
\<close>

record change =
  ch_range :: lsp_range
  rangeOffset :: nat
  rangeLength :: nat
  ch_text :: string

record change_event =
  ev_document :: document
  changes :: "change list"

text \<open>
  A \<^verbatim>\<open>Parser.Tree\<close> is an object of the parsing engine: \<open>tree_id\<close> is its identity
  (two references are the same tree when the ids agree) and \<open>content\<close> is what the
  engine holds for it, of a type \<open>'t\<close> that the cache never looks into.
\<close>

record 't parser_tree =
  tree_id :: nat
  content :: 't

text \<open>The class \<^verbatim>\<open>Entry\<close>: version, tree and the batches of pending edits.\<close>

record 't entry =
  version :: int
  tree :: "'t parser_tree"
  edits :: "edit list list"

text \<open>The type \<^verbatim>\<open>ParseDone\<close>, the payload of the parse-completed event.\<close>

record 't parse_done =
  pd_tree :: "'t parser_tree"
  pd_document :: document

text \<open>
  The parsing engine is a parameter. \<open>'g\<close> is the engine's own state, so that the
  outcome of a call may depend on everything the engine has done before. A call that
  throws returns \<open>None\<close>.
  \<^item> \<open>eng_parse g text old\<close> is \<^verbatim>\<open>parser.parse(text)\<close> when \<open>old = None\<close> and
    \<^verbatim>\<open>parser.parse(text, oldTree)\<close> when \<open>old = Some c\<close>, with \<open>c\<close> the content of the
    old tree;
  \<^item> \<open>eng_edit g c delta\<close> is \<^verbatim>\<open>tree.edit(delta)\<close> on a tree of content \<open>c\<close>; the tree
    is changed in place, so the result is the new content of the same tree.
  Every call of \<^verbatim>\<open>parse\<close> that returns gives a new tree object.
  \<^verbatim>\<open>tree.delete()\<close> returns normally and is recorded as a call.
\<close>

record ('t, 'g) engine =
  eng_parse :: "'g \<Rightarrow> string \<Rightarrow> 't option \<Rightarrow> 't option \<times> 'g"
  eng_edit :: "'g \<Rightarrow> 't \<Rightarrow> edit \<Rightarrow> 't option \<times> 'g"

text \<open>
  What the cache does with trees, in the order it does it: the calls of
  \<^verbatim>\<open>parser.parse\<close> (with the id of the old tree on the incremental path),
  \<^verbatim>\<open>tree.edit\<close>, \<^verbatim>\<open>tree.delete\<close>, and the trees handed to a caller.
\<close>

datatype tree_call =
  ParseCall string "nat option"
| EditCall nat edit
| DeleteCall nat
| Returned nat

text \<open>
  The object \<^verbatim>\<open>Trees\<close>. \<open>cache\<close> is \<^verbatim>\<open>_cache\<close>, least recently used entry first;
  \<open>parser\<close> is the state of \<^verbatim>\<open>_parser\<close>; \<open>next_id\<close> is the identity the next tree
  object gets; \<open>calls\<close> is the record of tree operations; \<open>fired\<close> is what
  \<^verbatim>\<open>_onParseDone\<close> fired, each payload with the cache as it stood at that moment;
  \<open>listening\<close> tells whether the listener of \<^verbatim>\<open>_listener\<close> is still attached.
\<close>

record ('t, 'g) trees =
  cache :: "(uri \<times> 't entry) list"
  parser :: 'g
  next_id :: nat
  calls :: "tree_call list"
  fired :: "('t parse_done \<times> (uri \<times> 't entry) list) list"
  listening :: bool

section \<open>The bounded cache (utils/lruMap)\<close>

text \<open>
  Modelled from the spec: the class \<^verbatim>\<open>LRUMap\<close> of \<^verbatim>\<open>utils/lruMap\<close>, whose source is
  not among the source files. The spec (4.1, 2 and 3) gives its contract:
  \<^verbatim>\<open>get(key)\<close> returns the value or absent and updates recency; \<^verbatim>\<open>set(key, value)\<close>
  inserts or replaces and updates recency, and an insertion that would exceed the
  capacity evicts the single least recently used entry, which is passed to the
  \<^verbatim>\<open>dispose\<close> hook; \<^verbatim>\<open>delete(key)\<close> removes the entry; \<^verbatim>\<open>values()\<close> iterates over a
  snapshot; the hook is invoked on every evicted or removed entry, once. The list is
  kept least recently used first. \<open>lru_set\<close> and \<open>lru_delete\<close> return the entries
  that go to the hook together with the new list. First \<^verbatim>\<open>LRUMap.get\<close>: a key that
  is present becomes the most recent one.
\<close>

definition lru_get :: "'k \<Rightarrow> ('k \<times> 'v) list \<Rightarrow> 'v option \<times> ('k \<times> 'v) list" where
  "lru_get k c =
     (case map_of c k of
        None \<Rightarrow> (None, c)
      | Some v \<Rightarrow> (Some v, filter (\<lambda>p. fst p \<noteq> k) c @ [(k, v)]))"

text \<open>
  Modelled from the spec: \<^verbatim>\<open>LRUMap.set\<close>. The key becomes the most recent one. A key
  that is present keeps its place in the count, so nothing is evicted; for a new key
  in a full cache the head of the list, the least recently used entry, is evicted.
\<close>

definition lru_set ::
  "nat \<Rightarrow> 'k \<Rightarrow> 'v \<Rightarrow> ('k \<times> 'v) list \<Rightarrow> ('k \<times> 'v) list \<times> ('k \<times> 'v) list" where
  "lru_set capacity k v c =
     (if k \<in> set (map fst c) then ([], filter (\<lambda>p. fst p \<noteq> k) c @ [(k, v)])
      else if capacity < length c + 1 then (take 1 c, drop 1 c @ [(k, v)])
      else ([], c @ [(k, v)]))"

text \<open>
  Modelled from the spec: \<^verbatim>\<open>LRUMap.delete\<close>. The entry of the key is removed and, being
  a removed entry, goes to the hook.
\<close>

definition lru_delete :: "'k \<Rightarrow> ('k \<times> 'v) list \<Rightarrow> ('k \<times> 'v) list \<times> ('k \<times> 'v) list" where
  "lru_delete k c = (filter (\<lambda>p. fst p = k) c, filter (\<lambda>p. fst p \<noteq> k) c)"

text \<open>Modelled from the spec: \<^verbatim>\<open>LRUMap.values\<close>, the values in the order of the list.\<close>

definition lru_values :: "('k \<times> 'v) list \<Rightarrow> 'v list" where
  "lru_values c = map snd c"

section \<open>The class Trees\<close>

text \<open>The option \<^verbatim>\<open>size: 200\<close> of \<^verbatim>\<open>_cache\<close>.\<close>

definition cache_size :: nat where
  "cache_size = 200"

text \<open>
  The option \<^verbatim>\<open>dispose(entries)\<close> of \<^verbatim>\<open>_cache\<close>: \<^verbatim>\<open>value.tree.delete()\<close> for every
  entry it is given.
\<close>

definition cache_dispose :: "(uri \<times> 't entry) list \<Rightarrow> ('t, 'g) trees \<Rightarrow> ('t, 'g) trees" where
  "cache_dispose entries s =
     s\<lparr>calls := calls s @ map (\<lambda>p. DeleteCall (tree_id (tree (snd p)))) entries\<rparr>"

text \<open>\<^verbatim>\<open>this._cache.set(key, info)\<close> and \<^verbatim>\<open>this._cache.delete(key)\<close>, hook included.\<close>

definition cache_set :: "uri \<Rightarrow> 't entry \<Rightarrow> ('t, 'g) trees \<Rightarrow> ('t, 'g) trees" where
  "cache_set k info s =
     (case lru_set cache_size k info (cache s) of
        (evicted, c) \<Rightarrow> cache_dispose evicted (s\<lparr>cache := c\<rparr>))"

definition cache_delete :: "uri \<Rightarrow> ('t, 'g) trees \<Rightarrow> ('t, 'g) trees" where
  "cache_delete k s =
     (case lru_delete k (cache s) of
        (removed, c) \<Rightarrow> cache_dispose removed (s\<lparr>cache := c\<rparr>))"

text \<open>
  An \<^verbatim>\<open>Entry\<close> is an object: the variable \<^verbatim>\<open>info\<close> and the cache hold the same one, and
  an assignment to a field of \<^verbatim>\<open>info\<close> changes the entry that the cache holds under
  the document's uri. \<open>modify_entry k f\<close> is that assignment.
\<close>

definition modify_entry ::
  "'k \<Rightarrow> ('v \<Rightarrow> 'v) \<Rightarrow> ('k \<times> 'v) list \<Rightarrow> ('k \<times> 'v) list" where
  "modify_entry k f c = map (\<lambda>p. if fst p = k then (fst p, f (snd p)) else p) c"

text \<open>The constructor: an empty cache, a new parser, and the change listener attached.\<close>

definition Trees_new :: "'g \<Rightarrow> ('t, 'g) trees" where
  "Trees_new g =
     \<lparr>cache = [], parser = g, next_id = 0, calls = [], fired = [], listening = True\<rparr>"

text \<open>\<^verbatim>\<open>_asTsPoint\<close> and \<^verbatim>\<open>_asEdits\<close>. \<open>positionAt\<close> is the method of the document
  library, a parameter.\<close>

definition Trees_asTsPoint :: "position \<Rightarrow> point" where
  "Trees_asTsPoint p = \<lparr>row = line p, column = character p\<rparr>"

definition Trees_asEdits :: "(document \<Rightarrow> nat \<Rightarrow> position) \<Rightarrow> change_event \<Rightarrow> edit list" where
  "Trees_asEdits positionAt event =
     map (\<lambda>change.
        \<lparr>startPosition = Trees_asTsPoint (range_start (ch_range change)),
         oldEndPosition = Trees_asTsPoint (range_end (ch_range change)),
         newEndPosition = Trees_asTsPoint
           (positionAt (ev_document event) (rangeOffset change + length (ch_text change))),
         startIndex = rangeOffset change,
         oldEndIndex = rangeOffset change + rangeLength change,
         newEndIndex = rangeOffset change + length (ch_text change)\<rparr>)
       (changes event)"

text \<open>The listener that the constructor registers with \<^verbatim>\<open>onDidChangeContent2\<close>.\<close>

definition onDidChangeContent2 ::
  "(document \<Rightarrow> nat \<Rightarrow> position) \<Rightarrow> change_event \<Rightarrow> ('t, 'g) trees \<Rightarrow> ('t, 'g) trees" where
  "onDidChangeContent2 positionAt e s =
     (case lru_get (doc_uri (ev_document e)) (cache s) of
        (None, c) \<Rightarrow> s\<lparr>cache := c\<rparr>
      | (Some info, c) \<Rightarrow>
          s\<lparr>cache := modify_entry (doc_uri (ev_document e))
                 (\<lambda>i. i\<lparr>edits := edits i @ [Trees_asEdits positionAt e]\<rparr>) c\<rparr>)"

text \<open>\<^verbatim>\<open>dispose()\<close>: every cached tree is deleted and the listener is detached.\<close>

definition Trees_dispose :: "('t, 'g) trees \<Rightarrow> ('t, 'g) trees" where
  "Trees_dispose s =
     s\<lparr>calls := calls s @ map (\<lambda>item. DeleteCall (tree_id (tree item))) (lru_values (cache s)),
       listening := False\<rparr>"

text \<open>
  \<^verbatim>\<open>deltas.forEach(delta => oldTree.edit(delta))\<close> on a tree of content \<open>c\<close>. The
  result tells whether every call returned, the content the tree has reached, the
  state of the engine, and the deltas on which \<^verbatim>\<open>edit\<close> was called (the one that
  threw included).
\<close>

fun forEach_edit ::
  "('t, 'g) engine \<Rightarrow> edit list \<Rightarrow> 't \<Rightarrow> 'g \<Rightarrow> bool \<times> 't \<times> 'g \<times> edit list" where
  "forEach_edit E [] c g = (True, c, g, [])"
| "forEach_edit E (delta # deltas) c g =
     (case eng_edit E g c delta of
        (None, g') \<Rightarrow> (False, c, g', [delta])
      | (Some c', g') \<Rightarrow>
          (case forEach_edit E deltas c' g' of
             (ok, c'', g'', called) \<Rightarrow> (ok, c'', g'', delta # called)))"

text \<open>
  The first branch of the \<^verbatim>\<open>try\<close> block of \<^verbatim>\<open>_parse\<close> (never seen before, parse
  fresh). \<open>Inl ()\<close> is a thrown exception, \<open>Inr info\<close> the entry that \<^verbatim>\<open>info\<close> holds
  when the branch is left.
\<close>

definition parse_fresh ::
  "('t, 'g) engine \<Rightarrow> document \<Rightarrow> ('t, 'g) trees \<Rightarrow> (unit + 't entry) \<times> ('t, 'g) trees" where
  "parse_fresh E d s =
     (case eng_parse E (parser s) (doc_text d) None of
        (None, g) \<Rightarrow>
          (Inl (), s\<lparr>parser := g, calls := calls s @ [ParseCall (doc_text d) None]\<rparr>)
      | (Some c, g) \<Rightarrow>
          (let info = \<lparr>version = doc_version d,
                       tree = \<lparr>tree_id = next_id s, content = c\<rparr>,
                       edits = []\<rparr>;
               s1 = s\<lparr>parser := g, next_id := Suc (next_id s),
                      calls := calls s @ [ParseCall (doc_text d) None]\<rparr>
           in (Inr info, cache_set (doc_uri d) info s1)))"

text \<open>
  The second branch (existing entry, apply deltas and parse incremental). \<open>info\<close> is
  the entry that \<^verbatim>\<open>this._cache.get\<close> returned, which the cache holds under the
  document's uri.
\<close>

definition parse_incremental ::
  "('t, 'g) engine \<Rightarrow> document \<Rightarrow> 't entry \<Rightarrow> ('t, 'g) trees \<Rightarrow>
     (unit + 't entry) \<times> ('t, 'g) trees" where
  "parse_incremental E d info s =
     (let oldTree = tree info;
          deltas = concat (edits info)
      in case forEach_edit E deltas (content oldTree) (parser s) of
        (ok, c1, g1, called) \<Rightarrow>
          (let edited = oldTree\<lparr>content := c1\<rparr>;
               s1 = s\<lparr>parser := g1,
                      calls := calls s @ map (EditCall (tree_id oldTree)) called,
                      cache := modify_entry (doc_uri d) (\<lambda>i. i\<lparr>tree := edited\<rparr>) (cache s)\<rparr>
           in if \<not> ok then (Inl (), s1)
              else
                (let s2 = s1\<lparr>cache := modify_entry (doc_uri d) (\<lambda>i. i\<lparr>edits := []\<rparr>) (cache s1),
                            calls := calls s1 @ [ParseCall (doc_text d) (Some (tree_id oldTree))]\<rparr>
                 in case eng_parse E g1 (doc_text d) (Some c1) of
                   (None, g2) \<Rightarrow> (Inl (), s2\<lparr>parser := g2\<rparr>)
                 | (Some c2, g2) \<Rightarrow>
                     (let newTree = \<lparr>tree_id = next_id s2, content = c2\<rparr>;
                          update = (\<lambda>i. i\<lparr>tree := newTree, version := doc_version d\<rparr>);
                          s3 = s2\<lparr>parser := g2, next_id := Suc (next_id s2),
                                 cache := modify_entry (doc_uri d) update (cache s2),
                                 calls := calls s2 @ [DeleteCall (tree_id oldTree)]\<rparr>
                      in (Inr (update (info\<lparr>edits := []\<rparr>)), s3)))))"

text \<open>
  \<^verbatim>\<open>this._onParseDone.fire(...)\<close>: the payload, and the cache as a subscriber finds it.
  The call returns normally, and a subscriber does not call back into the object.
\<close>

definition fire :: "'t parse_done \<Rightarrow> ('t, 'g) trees \<Rightarrow> ('t, 'g) trees" where
  "fire payload s = s\<lparr>fired := fired s @ [(payload, cache s)]\<rparr>"

text \<open>The whole \<^verbatim>\<open>try\<close> block: one of the two branches, then the event, then the tree
  that is returned.\<close>

definition try_block ::
  "('t, 'g) engine \<Rightarrow> document \<Rightarrow> 't entry option \<Rightarrow> ('t, 'g) trees \<Rightarrow>
     (unit + 't parser_tree) \<times> ('t, 'g) trees" where
  "try_block E d info s =
     (case (case info of
              None \<Rightarrow> parse_fresh E d s
            | Some i \<Rightarrow> parse_incremental E d i s) of
        (Inl e, s') \<Rightarrow> (Inl e, s')
      | (Inr info', s') \<Rightarrow>
          (Inr (tree info'), fire \<lparr>pd_tree = tree info', pd_document = d\<rparr> s'))"

definition returned :: "'t parser_tree \<Rightarrow> ('t, 'g) trees \<Rightarrow> ('t, 'g) trees" where
  "returned t s = s\<lparr>calls := calls s @ [Returned (tree_id t)]\<rparr>"

text \<open>
  \<^verbatim>\<open>_parse(document)\<close>, which \<^verbatim>\<open>getParseTree\<close> calls for a document: the cache hit,
  the \<^verbatim>\<open>try\<close> block, and the \<^verbatim>\<open>catch\<close> that deletes the entry and returns
  \<^verbatim>\<open>undefined\<close>.
\<close>

definition Trees_parse ::
  "('t, 'g) engine \<Rightarrow> document \<Rightarrow> ('t, 'g) trees \<Rightarrow> 't parser_tree option \<times> ('t, 'g) trees" where
  "Trees_parse E d s =
     (case lru_get (doc_uri d) (cache s) of
        (info, c) \<Rightarrow>
          (let s1 = s\<lparr>cache := c\<rparr> in
           case (case info of
                   Some i \<Rightarrow> if version i = doc_version d then Some (tree i) else None
                 | None \<Rightarrow> None) of
             Some t \<Rightarrow> (Some t, returned t s1)
           | None \<Rightarrow>
               (case try_block E d info s1 of
                  (Inr t, s2) \<Rightarrow> (Some t, returned t s2)
                | (Inl e, s2) \<Rightarrow> (None, cache_delete (doc_uri d) s2))))"

text \<open>
  \<^verbatim>\<open>getParseTree\<close> called with a document. Called with a uri it waits for the document
  store and then makes the same call of \<^verbatim>\<open>_parse\<close>, or returns \<^verbatim>\<open>undefined\<close> when the
  document does not exist.
\<close>

definition getParseTree ::
  "('t, 'g) engine \<Rightarrow> document \<Rightarrow> ('t, 'g) trees \<Rightarrow> 't parser_tree option \<times> ('t, 'g) trees" where
  "getParseTree E documentOrUri s = Trees_parse E documentOrUri s"

text \<open>
  A run of the object: documents are requested and change notifications arrive, in any
  order. A notification reaches the listener only while it is attached.
\<close>

datatype operation =
  GetParseTree document
| DidChangeContent change_event

definition step ::
  "('t, 'g) engine \<Rightarrow> (document \<Rightarrow> nat \<Rightarrow> position) \<Rightarrow> ('t, 'g) trees \<Rightarrow> operation \<Rightarrow>
     ('t, 'g) trees" where
  "step E positionAt s x =
     (case x of
        GetParseTree d \<Rightarrow> snd (getParseTree E d s)
      | DidChangeContent e \<Rightarrow>
          if listening s then onDidChangeContent2 positionAt e s else s)"

definition run ::
  "('t, 'g) engine \<Rightarrow> (document \<Rightarrow> nat \<Rightarrow> position) \<Rightarrow> operation list \<Rightarrow> ('t, 'g) trees \<Rightarrow>
     ('t, 'g) trees" where
  "run E positionAt xs s = foldl (step E positionAt) s xs"

section \<open>Properties of runs\<close>

text \<open>\<open>about r x\<close>: the call \<open>x\<close> is made on the tree of identity \<open>r\<close>, or hands it out.\<close>

fun about :: "nat \<Rightarrow> tree_call \<Rightarrow> bool" where
  "about r (ParseCall t old) = (old = Some r)"
| "about r (EditCall r' delta) = (r' = r)"
| "about r (DeleteCall r') = (r' = r)"
| "about r (Returned r') = (r' = r)"

text \<open>
  \<open>released_once r cs\<close>: among the calls \<open>cs\<close>, the last one about the tree \<open>r\<close> is
  its \<^verbatim>\<open>delete()\<close>, and no earlier call deletes it. So the tree is released, it is
  released one time, and nothing reads or hands it out afterwards.
\<close>

definition released_once :: "nat \<Rightarrow> tree_call list \<Rightarrow> bool" where
  "released_once r cs =
     (case rev (filter (about r) cs) of
        [] \<Rightarrow> False
      | x # before \<Rightarrow> x = DeleteCall r \<and> DeleteCall r \<notin> set before)"

text \<open>
  \<open>consistent_event\<close>: at the moment the event was fired, the cache held, under the
  uri of the event's document, an entry with the event's tree and the document's
  version.
\<close>

definition consistent_event :: "'t parse_done \<times> (uri \<times> 't entry) list \<Rightarrow> bool" where
  "consistent_event ev =
     (case map_of (snd ev) (doc_uri (pd_document (fst ev))) of
        None \<Rightarrow> False
      | Some i \<Rightarrow>
          tree i = pd_tree (fst ev) \<and> version i = doc_version (pd_document (fst ev)))"

text \<open>
  The pending edits folded into a tree, in the words of the claims: starting from the
  content \<open>c\<close> of the tree and the state \<open>g\<close> of the engine, the engine's \<^verbatim>\<open>edit\<close> is
  applied to the first edit of the list, then to the second on the result, and so on
  to the last. \<open>edit_step\<close> is one such application; the fold is \<open>None\<close> as soon as
  a call throws, and otherwise the content of the tree and the state of the engine
  after the last edit.
\<close>

definition edit_step ::
  "('t, 'g) engine \<Rightarrow> ('t \<times> 'g) option \<Rightarrow> edit \<Rightarrow> ('t \<times> 'g) option" where
  "edit_step E acc delta =
     (case acc of
        None \<Rightarrow> None
      | Some (c, g) \<Rightarrow>
          (case eng_edit E g c delta of
             (None, g') \<Rightarrow> None
           | (Some c', g') \<Rightarrow> Some (c', g')))"

definition fold_edits ::
  "('t, 'g) engine \<Rightarrow> edit list \<Rightarrow> 't \<Rightarrow> 'g \<Rightarrow> ('t \<times> 'g) option" where
  "fold_edits E deltas c g = foldl (edit_step E) (Some (c, g)) deltas"

text \<open>
  \<open>edit_throws E deltas c g\<close>: for some position \<open>n\<close> of the list, the edits before
  \<open>n\<close> fold without an exception and the engine's \<^verbatim>\<open>edit\<close> throws on the edit at
  \<open>n\<close>.
\<close>

definition edit_throws :: "('t, 'g) engine \<Rightarrow> edit list \<Rightarrow> 't \<Rightarrow> 'g \<Rightarrow> bool" where
  "edit_throws E deltas c g =
     list_ex (\<lambda>n. case fold_edits E (take n deltas) c g of
                     None \<Rightarrow> False
                   | Some (c', g') \<Rightarrow> fst (eng_edit E g' c' (deltas ! n)) = None)
       [0..<length deltas]"

text \<open>
  \<open>engine_throws E d s\<close>: the engine throws during the call \<^verbatim>\<open>_parse(d)\<close> in state
  \<open>s\<close>. With no entry for the document's uri, the engine's parse of the text
  throws. With an entry of another version, the engine's \<^verbatim>\<open>edit\<close> throws on one of
  the pending edits, or all of them fold and the engine's parse of the text with
  the edited old tree throws. With an entry of the document's version the engine is
  not called.
\<close>

definition engine_throws :: "('t, 'g) engine \<Rightarrow> document \<Rightarrow> ('t, 'g) trees \<Rightarrow> bool" where
  "engine_throws E d s =
     (case map_of (cache s) (doc_uri d) of
        None \<Rightarrow> fst (eng_parse E (parser s) (doc_text d) None) = None
      | Some i \<Rightarrow>
          version i \<noteq> doc_version d \<and>
          (edit_throws E (concat (edits i)) (content (tree i)) (parser s) \<or>
           (case fold_edits E (concat (edits i)) (content (tree i)) (parser s) of
              None \<Rightarrow> False
            | Some (c1, g1) \<Rightarrow> fst (eng_parse E g1 (doc_text d) (Some c1)) = None)))"

section \<open>The query for global declarations (server/src/queries/globals.ts)\<close>

text \<open>A \<^verbatim>\<open>Parser.SyntaxNode\<close>, with the properties that the query code reads, a
  \<^verbatim>\<open>QueryCapture\<close> of the engine, and the object that \<^verbatim>\<open>queryGlobals\<close> builds for
  each capture.\<close>

record syntax_node =
  node_text :: string
  node_startPosition :: point
  node_endPosition :: point

record query_capture =
  cap_name :: string
  cap_node :: syntax_node

record global_match =
  gm_text :: string
  gm_type :: string
  gm_range :: lsp_range
  gm_node :: syntax_node

text \<open>
  The query engine is a parameter: \<open>compile\<close> is the compilation of a pattern source
  into a query object of type \<open>'q\<close>, and \<open>captures q node\<close> is
  \<^verbatim>\<open>q.captures(node)\<close>, the captures in the order the engine gives them.
\<close>

record 'q query_engine =
  compile :: "string \<Rightarrow> 'q"
  captures :: "'q \<Rightarrow> syntax_node \<Rightarrow> query_capture list"

text \<open>The template literal given to \<^verbatim>\<open>parserQuery\<close>, line breaks included.\<close>

definition query_source :: string where
  "query_source =
     CHR 0x0A # ''(function_definition name: (function_name) @function)'' @
     CHR 0x0A # ''(global_var_declaration name: (identifier) @globalVar)'' @
     CHR 0x0A # ''(constant_declaration name: (identifier) @const)'' @
     [CHR 0x0A]"

text \<open>
  Modelled from the spec: \<^verbatim>\<open>parserQuery\<close> of \<^verbatim>\<open>queries/utils/parserQuery\<close>, whose
  source is not among the source files. The spec (4.4) says that the patterns are
  compiled once, cached, and not recompiled per call. \<open>cached\<close> is the cached query
  object, \<open>None\<close> before the first call; the result is the query object and the cache
  after the call.
\<close>

definition parserQuery :: "'q query_engine \<Rightarrow> string \<Rightarrow> 'q option \<Rightarrow> 'q \<times> 'q option" where
  "parserQuery Q source cached =
     (case cached of
        Some q \<Rightarrow> (q, Some q)
      | None \<Rightarrow> (compile Q source, Some (compile Q source)))"

text \<open>
  Modelled from the spec: \<^verbatim>\<open>asLspRange\<close> of \<^verbatim>\<open>utils/position\<close>, whose source is not
  among the source files. The spec (3) says that the range of a match is the
  matched node's source range, start and end, each a line and a column.
\<close>

definition asLspRange :: "syntax_node \<Rightarrow> lsp_range" where
  "asLspRange n =
     \<lparr>range_start = \<lparr>line = row (node_startPosition n), character = column (node_startPosition n)\<rparr>,
      range_end = \<lparr>line = row (node_endPosition n), character = column (node_endPosition n)\<rparr>\<rparr>"

definition queryGlobals ::
  "'q query_engine \<Rightarrow> syntax_node \<Rightarrow> 'q option \<Rightarrow> global_match list \<times> 'q option" where
  "queryGlobals Q node cached =
     (case parserQuery Q query_source cached of
        (q, cached') \<Rightarrow>
          (map (\<lambda>a. \<lparr>gm_text = node_text (cap_node a),
                     gm_type = cap_name a,
                     gm_range = asLspRange (cap_node a),
                     gm_node = cap_node a\<rparr>)
             (captures Q q node),
           cached'))"

text \<open>
  The capture names that a pattern source declares: after each \<open>@\<close>, the longest run
  of name characters (letters, digits and \<open>_ - . ? !\<close>). The engine's contract, assumed
  where it is needed, is that a capture bears one of these names.
\<close>

definition name_char :: "char \<Rightarrow> bool" where
  "name_char c =
     (c \<in> set ''abcdefghijklmnopqrstuvwxyzABCDEFGHIJKLMNOPQRSTUVWXYZ0123456789_-.?!'')"

fun capture_names :: "string \<Rightarrow> string list" where
  "capture_names [] = []"
| "capture_names (c # cs) =
     (if c = CHR ''@'' then takeWhile name_char cs # capture_names cs
      else capture_names cs)"



section \<open>Ownership of trees\<close>

text \<open>The identities of the trees that the entries of a cache hold.\<close>

definition cached_ids :: "(uri \<times> 't entry) list \<Rightarrow> nat list" where
  "cached_ids c = map (\<lambda>p. tree_id (tree (snd p))) c"

text \<open>
  The invariant behind the release discipline: the cache has one entry per uri; no two
  entries hold the same tree; a cached tree exists and has not been deleted; every
  call is about a tree that exists; and a tree that exists and is not cached has been
  released, once, with no call about it afterwards.
\<close>

definition owned :: "('t, 'g) trees \<Rightarrow> bool" where
  "owned s \<longleftrightarrow>
     distinct (map fst (cache s)) \<and>
     distinct (cached_ids (cache s)) \<and>
     (\<forall>r \<in> set (cached_ids (cache s)). r < next_id s \<and> DeleteCall r \<notin> set (calls s)) \<and>
     (\<forall>r x. x \<in> set (calls s) \<longrightarrow> about r x \<longrightarrow> r < next_id s) \<and>
     (\<forall>r. r < next_id s \<longrightarrow> r \<notin> set (cached_ids (cache s)) \<longrightarrow> released_once r (calls s))"

section \<open>Example values\<close>

text \<open>
  A small engine and a few documents, on which the theorems below are instantiated.
  The engine's content of a tree is the text it was parsed from; parsing the text
  \<open>bad\<close> throws; an edit that starts beyond the content throws; the engine's state
  counts the calls of \<^verbatim>\<open>parse\<close>.
\<close>

definition demo_engine :: "(string, nat) engine" where
  "demo_engine =
     \<lparr>eng_parse = (\<lambda>g t old. (if t = ''bad'' then None else Some t, Suc g)),
      eng_edit = (\<lambda>g c delta. (if length c < startIndex delta then None else Some c, g))\<rparr>"

definition demo_positionAt :: "document \<Rightarrow> nat \<Rightarrow> position" where
  "demo_positionAt d n = \<lparr>line = 0, character = n\<rparr>"

definition demo_doc1 :: document where
  "demo_doc1 = \<lparr>doc_uri = ''a'', doc_version = 1, doc_text = ''fun f''\<rparr>"

definition demo_doc2 :: document where
  "demo_doc2 = \<lparr>doc_uri = ''a'', doc_version = 2, doc_text = ''fun g''\<rparr>"

definition demo_doc3 :: document where
  "demo_doc3 = \<lparr>doc_uri = ''a'', doc_version = 3, doc_text = ''bad''\<rparr>"

definition demo_other :: document where
  "demo_other = \<lparr>doc_uri = ''b'', doc_version = 7, doc_text = ''const x''\<rparr>"

definition demo_change :: change where
  "demo_change =
     \<lparr>ch_range = \<lparr>range_start = \<lparr>line = 0, character = 4\<rparr>,
                  range_end = \<lparr>line = 0, character = 5\<rparr>\<rparr>,
      rangeOffset = 4, rangeLength = 1, ch_text = ''g''\<rparr>"

definition demo_event :: change_event where
  "demo_event = \<lparr>ev_document = demo_doc2, changes = [demo_change]\<rparr>"

definition demo_ops :: "operation list" where
  "demo_ops =
     [GetParseTree demo_doc1, GetParseTree demo_other, DidChangeContent demo_event,
      GetParseTree demo_doc2, GetParseTree demo_doc3]"

definition demo_edit :: edit where
  "demo_edit =
     \<lparr>startPosition = \<lparr>row = 0, column = 4\<rparr>, oldEndPosition = \<lparr>row = 0, column = 5\<rparr>,
      newEndPosition = \<lparr>row = 0, column = 5\<rparr>, startIndex = 4, oldEndIndex = 5,
      newEndIndex = 5\<rparr>"

definition demo_entry :: "string entry" where
  "demo_entry =
     \<lparr>version = 1, tree = \<lparr>tree_id = 0, content = ''fun f''\<rparr>, edits = [[demo_edit]]\<rparr>"

definition demo_entry_b :: "string entry" where
  "demo_entry_b =
     \<lparr>version = 7, tree = \<lparr>tree_id = 1, content = ''const x''\<rparr>, edits = []\<rparr>"

text \<open>The state after both documents were parsed and one change to the first arrived.\<close>

definition demo_state :: "(string, nat) trees" where
  "demo_state = run demo_engine demo_positionAt (take 3 demo_ops) (Trees_new 0)"

text \<open>A change that starts beyond the end of the parsed text, and the state after the
  first document was parsed and that change arrived.\<close>

definition demo_far_event :: change_event where
  "demo_far_event =
     \<lparr>ev_document = demo_doc2, changes = [demo_change\<lparr>rangeOffset := 9\<rparr>]\<rparr>"

definition demo_far_state :: "(string, nat) trees" where
  "demo_far_state =
     run demo_engine demo_positionAt [GetParseTree demo_doc1, DidChangeContent demo_far_event]
       (Trees_new 0)"

text \<open>A query engine whose query object is the list of capture names of the source and
  which captures the given node once under each name, and a node.\<close>

definition demo_query_engine :: "string list query_engine" where
  "demo_query_engine =
     \<lparr>compile = capture_names,
      captures = (\<lambda>q n. map (\<lambda>name. \<lparr>cap_name = name, cap_node = n\<rparr>) q)\<rparr>"

definition demo_node :: syntax_node where
  "demo_node =
     \<lparr>node_text = ''main'', node_startPosition = \<lparr>row = 2, column = 4\<rparr>,
      node_endPosition = \<lparr>row = 2, column = 8\<rparr>\<rparr>"

text \<open>
  An engine that keeps, as the content of a tree, the length of the parsed text
  followed by the content of the old tree, and that appends to the content the start
  offset of every edit; so the content tells which edits were folded and in which
  order. The state after the first document was parsed and two changes arrived.
\<close>

definition demo_marking_engine :: "(nat list, nat) engine" where
  "demo_marking_engine =
     \<lparr>eng_parse = (\<lambda>g t old. (Some (length t # (case old of None \<Rightarrow> [] | Some c \<Rightarrow> c)), Suc g)),
      eng_edit = (\<lambda>g c delta. (Some (c @ [startIndex delta]), Suc g))\<rparr>"

definition demo_far_edit :: edit where
  "demo_far_edit =
     \<lparr>startPosition = \<lparr>row = 0, column = 4\<rparr>, oldEndPosition = \<lparr>row = 0, column = 5\<rparr>,
      newEndPosition = \<lparr>row = 0, column = 10\<rparr>, startIndex = 9, oldEndIndex = 10,
      newEndIndex = 10\<rparr>"

definition demo_marking_entry :: "nat list entry" where
  "demo_marking_entry =
     \<lparr>version = 1, tree = \<lparr>tree_id = 0, content = [5]\<rparr>,
      edits = [[demo_edit], [demo_far_edit]]\<rparr>"

definition demo_marking_state :: "(nat list, nat) trees" where
  "demo_marking_state =
     run demo_marking_engine demo_positionAt
       [GetParseTree demo_doc1, DidChangeContent demo_event, DidChangeContent demo_far_event]
       (Trees_new 0)"





section \<open>Basic facts about the cache\<close>

lemma map_of_filter_other:
  "k' \<noteq> k \<Longrightarrow> map_of (filter (\<lambda>p. fst p \<noteq> k) c) k' = map_of c k'"
  by (induction c) auto

text \<open>
  The scenario of the spec (8): capacity 2, the keys \<open>a\<close>, \<open>b\<close>, \<open>c\<close> inserted in this
  order and \<open>a\<close> read between \<open>b\<close> and \<open>c\<close>; the entry evicted is that of \<open>b\<close>.
\<close>

lemma lru_scenario:
  "lru_set 2 ''c'' (3::nat)
     (snd (lru_get ''a'' (snd (lru_set 2 ''b'' 2 (snd (lru_set 2 ''a'' 1 []))))))
   = ([(''b'', 2)], [(''a'', 1), (''c'', 3)])"
  by (simp add: lru_set_def lru_get_def)

lemma lru_get_Some:
  "map_of c k = Some v \<Longrightarrow> lru_get k c = (Some v, filter (\<lambda>p. fst p \<noteq> k) c @ [(k, v)])"
  by (simp add: lru_get_def)

lemma lru_get_None: "map_of c k = None \<Longrightarrow> lru_get k c = (None, c)"
  by (simp add: lru_get_def)

lemma map_of_filter_same: "map_of (filter (\<lambda>p. fst p \<noteq> k) c) k = None"
  by (induction c) auto

lemma map_of_touch:
  "map_of c k = Some v \<Longrightarrow> map_of (filter (\<lambda>p. fst p \<noteq> k) c @ [(k, v)]) = map_of c"
  by (rule ext) (auto simp: map_add_def map_of_filter_other map_of_filter_same split: option.splits)

lemma forEach_edit_called:
  "forEach_edit E deltas c g = (True, c1, g1, called) \<Longrightarrow> called = deltas"
  by (induction deltas arbitrary: c g called) (auto split: prod.splits option.splits)

lemma modify_entry_touched:
  "modify_entry k f (filter (\<lambda>p. fst p \<noteq> k) c @ [(k, v)]) =
     filter (\<lambda>p. fst p \<noteq> k) c @ [(k, f v)]"
  by (induction c) (auto simp: modify_entry_def)

lemma filter_absent:
  "map_of c k = None \<Longrightarrow> filter (\<lambda>p. fst p \<noteq> k) c = c"
  by (induction c) (auto split: if_splits)

lemma filter_eq_touched:
  "filter (\<lambda>p. fst p = k) (filter (\<lambda>p. fst p \<noteq> k) c @ [(k, v)]) = [(k, v)]"
  by (induction c) auto

lemma filter_neq_touched:
  "filter (\<lambda>p. fst p \<noteq> k) (filter (\<lambda>p. fst p \<noteq> k) c @ [(k, v)]) = filter (\<lambda>p. fst p \<noteq> k) c"
  by (induction c) auto

lemma filter_eq_absent:
  "map_of c k = None \<Longrightarrow> filter (\<lambda>p. fst p = k) c = []"
  by (induction c) (auto split: if_splits)

lemma map_of_snoc_absent:
  "map_of c k = None \<Longrightarrow> map_of (c @ [(k, v)]) k = Some v"
  by (simp add: map_add_def)

lemma map_of_drop_absent:
  "map_of c k = None \<Longrightarrow> map_of (drop n c) k = None"
  by (auto simp: map_of_eq_None_iff dest: in_set_dropD)

section \<open>What one call of \<^verbatim>\<open>_parse\<close> does, case by case\<close>

lemma Trees_parse_hit:
  assumes "map_of (cache s) (doc_uri d) = Some i" and "version i = doc_version d"
  shows "Trees_parse E d s =
    (Some (tree i),
     s\<lparr>cache := filter (\<lambda>p. fst p \<noteq> doc_uri d) (cache s) @ [(doc_uri d, i)],
       calls := calls s @ [Returned (tree_id (tree i))]\<rparr>)"
  using assms by (simp add: Trees_parse_def lru_get_Some returned_def)

lemma Trees_parse_fresh:
  assumes "map_of (cache s) (doc_uri d) = None"
    and "eng_parse E (parser s) (doc_text d) None = (Some c, g)"
  shows "Trees_parse E d s =
    (let t = \<lparr>tree_id = next_id s, content = c\<rparr>;
         info = \<lparr>version = doc_version d, tree = t, edits = []\<rparr>;
         full = (cache_size < length (cache s) + 1);
         c' = (if full then drop 1 (cache s) else cache s) @ [(doc_uri d, info)]
     in (Some t,
         s\<lparr>cache := c', parser := g, next_id := Suc (next_id s),
           calls := calls s @ [ParseCall (doc_text d) None]
             @ map (\<lambda>p. DeleteCall (tree_id (tree (snd p)))) (if full then take 1 (cache s) else [])
             @ [Returned (next_id s)],
           fired := fired s @ [(\<lparr>pd_tree = t, pd_document = d\<rparr>, c')]\<rparr>))"
proof -
  from assms(1) have absent: "doc_uri d \<notin> fst ` set (cache s)"
    by (simp add: map_of_eq_None_iff)
  show ?thesis
    using assms absent
    by (simp add: Trees_parse_def lru_get_None try_block_def parse_fresh_def cache_set_def
        lru_set_def cache_dispose_def fire_def returned_def Let_def)
qed

lemma Trees_parse_incremental:
  assumes "map_of (cache s) (doc_uri d) = Some i"
    and "version i \<noteq> doc_version d"
    and "forEach_edit E (concat (edits i)) (content (tree i)) (parser s) = (True, c1, g1, called)"
    and "eng_parse E g1 (doc_text d) (Some c1) = (Some c2, g2)"
  shows "Trees_parse E d s =
    (let t = \<lparr>tree_id = next_id s, content = c2\<rparr>;
         c' = filter (\<lambda>p. fst p \<noteq> doc_uri d) (cache s)
                @ [(doc_uri d, \<lparr>version = doc_version d, tree = t, edits = []\<rparr>)]
     in (Some t,
         s\<lparr>cache := c', parser := g2, next_id := Suc (next_id s),
           calls := calls s @ map (EditCall (tree_id (tree i))) (concat (edits i))
             @ [ParseCall (doc_text d) (Some (tree_id (tree i))), DeleteCall (tree_id (tree i)),
                Returned (next_id s)],
           fired := fired s @ [(\<lparr>pd_tree = t, pd_document = d\<rparr>, c')]\<rparr>))"
proof -
  from assms(3) have "called = concat (edits i)" by (rule forEach_edit_called)
  then show ?thesis
    using assms
    by (simp add: Trees_parse_def lru_get_Some try_block_def parse_incremental_def
        modify_entry_touched fire_def returned_def Let_def)
qed

lemma Trees_parse_fresh_throws:
  assumes "map_of (cache s) (doc_uri d) = None"
    and "eng_parse E (parser s) (doc_text d) None = (None, g)"
  shows "Trees_parse E d s =
    (None, s\<lparr>parser := g, calls := calls s @ [ParseCall (doc_text d) None]\<rparr>)"
  using assms
  by (simp add: Trees_parse_def lru_get_None try_block_def parse_fresh_def cache_delete_def
      lru_delete_def cache_dispose_def filter_absent filter_eq_absent)

lemma Trees_parse_edit_throws:
  assumes "map_of (cache s) (doc_uri d) = Some i"
    and "version i \<noteq> doc_version d"
    and "forEach_edit E (concat (edits i)) (content (tree i)) (parser s) = (False, c1, g1, called)"
  shows "Trees_parse E d s =
    (None,
     s\<lparr>cache := filter (\<lambda>p. fst p \<noteq> doc_uri d) (cache s), parser := g1,
       calls := calls s @ map (EditCall (tree_id (tree i))) called
                @ [DeleteCall (tree_id (tree i))]\<rparr>)"
  using assms
  by (simp add: Trees_parse_def lru_get_Some try_block_def parse_incremental_def
      modify_entry_touched cache_delete_def lru_delete_def cache_dispose_def
      filter_eq_touched filter_neq_touched Let_def)

lemma Trees_parse_incremental_throws:
  assumes "map_of (cache s) (doc_uri d) = Some i"
    and "version i \<noteq> doc_version d"
    and "forEach_edit E (concat (edits i)) (content (tree i)) (parser s) = (True, c1, g1, called)"
    and "eng_parse E g1 (doc_text d) (Some c1) = (None, g2)"
  shows "Trees_parse E d s =
    (None,
     s\<lparr>cache := filter (\<lambda>p. fst p \<noteq> doc_uri d) (cache s), parser := g2,
       calls := calls s @ map (EditCall (tree_id (tree i))) (concat (edits i))
                @ [ParseCall (doc_text d) (Some (tree_id (tree i))),
                   DeleteCall (tree_id (tree i))]\<rparr>)"
proof -
  from assms(3) have "called = concat (edits i)" by (rule forEach_edit_called)
  then show ?thesis
    using assms
    by (simp add: Trees_parse_def lru_get_Some try_block_def parse_incremental_def
      modify_entry_touched cache_delete_def lru_delete_def cache_dispose_def
      filter_eq_touched filter_neq_touched Let_def)
qed

lemma onDidChangeContent2_absent:
  "map_of (cache s) (doc_uri (ev_document e)) = None \<Longrightarrow> onDidChangeContent2 positionAt e s = s"
  by (simp add: onDidChangeContent2_def lru_get_None)

lemma onDidChangeContent2_present:
  "map_of (cache s) (doc_uri (ev_document e)) = Some i \<Longrightarrow>
   onDidChangeContent2 positionAt e s =
     s\<lparr>cache := filter (\<lambda>p. fst p \<noteq> doc_uri (ev_document e)) (cache s)
          @ [(doc_uri (ev_document e), i\<lparr>edits := edits i @ [Trees_asEdits positionAt e]\<rparr>)]\<rparr>"
  by (simp add: onDidChangeContent2_def lru_get_Some modify_entry_touched)

section \<open>The fold of the pending edits\<close>

text \<open>
  The loop of the code computes the fold: it returns normally exactly when the fold is
  not \<open>None\<close>, then with the fold's content and engine state and with \<^verbatim>\<open>edit\<close>
  called on every edit; and the fold is \<open>None\<close> exactly when some call of \<^verbatim>\<open>edit\<close>
  throws.
\<close>

lemma foldl_edit_step_None: "foldl (edit_step E) None deltas = None"
  by (induction deltas) (simp_all add: edit_step_def)

lemma fold_edits_Nil: "fold_edits E [] c g = Some (c, g)"
  by (simp add: fold_edits_def)

lemma fold_edits_Cons:
  "fold_edits E (delta # deltas) c g =
     (case eng_edit E g c delta of
        (None, g') \<Rightarrow> None
      | (Some c', g') \<Rightarrow> fold_edits E deltas c' g')"
  by (simp add: fold_edits_def edit_step_def foldl_edit_step_None split: prod.splits option.splits)

lemma fold_edits_snoc:
  "fold_edits E (deltas @ [delta]) c g = edit_step E (fold_edits E deltas c g) delta"
  by (simp add: fold_edits_def)

lemma forEach_edit_fold:
  "forEach_edit E deltas c g = (ok, c1, g1, called) \<Longrightarrow>
   (if ok then fold_edits E deltas c g = Some (c1, g1) \<and> called = deltas
    else fold_edits E deltas c g = None)"
proof (induction deltas arbitrary: c g called ok c1 g1)
  case Nil
  then show ?case by (auto simp: fold_edits_Nil)
next
  case (Cons delta deltas)
  obtain r g' where e: "eng_edit E g c delta = (r, g')" by force
  show ?case
  proof (cases r)
    case None
    with e Cons.prems show ?thesis by (auto simp: fold_edits_Cons)
  next
    case (Some c')
    obtain ok' c'' g'' called' where
      f: "forEach_edit E deltas c' g' = (ok', c'', g'', called')" by (metis prod_cases4)
    from Cons.IH [OF f] e Some f Cons.prems show ?thesis
      by (auto simp: fold_edits_Cons split: if_splits)
  qed
qed

lemma forEach_edit_ok:
  "fold_edits E deltas c g = Some (c1, g1) \<Longrightarrow>
   forEach_edit E deltas c g = (True, c1, g1, deltas)"
proof -
  assume a: "fold_edits E deltas c g = Some (c1, g1)"
  obtain ok c1' g1' called where
    f: "forEach_edit E deltas c g = (ok, c1', g1', called)" by (metis prod_cases4)
  from forEach_edit_fold [OF f] a f show ?thesis by (auto split: if_splits)
qed

lemma forEach_edit_fails:
  "fold_edits E deltas c g = None \<Longrightarrow> fst (forEach_edit E deltas c g) = False"
proof -
  assume a: "fold_edits E deltas c g = None"
  obtain ok c1' g1' called where
    f: "forEach_edit E deltas c g = (ok, c1', g1', called)" by (metis prod_cases4)
  from forEach_edit_fold [OF f] a f show ?thesis by (auto split: if_splits)
qed

lemma edit_throws_iff: "edit_throws E deltas c g \<longleftrightarrow> fold_edits E deltas c g = None"
proof (induction deltas rule: rev_induct)
  case Nil
  show ?case by (simp add: edit_throws_def fold_edits_Nil)
next
  case (snoc delta deltas)
  define P where "P ds n =
      (case fold_edits E (take n ds) c g of
         None \<Rightarrow> False
       | Some (c', g') \<Rightarrow> fst (eng_edit E g' c' (ds ! n)) = None)" for ds n
  have ex: "edit_throws E ds c g \<longleftrightarrow> (\<exists>n < length ds. P ds n)" for ds
    by (auto simp: edit_throws_def list_ex_iff P_def)
  have old: "P (deltas @ [delta]) n = P deltas n" if "n < length deltas" for n
  proof -
    from that have nth: "(deltas @ [delta]) ! n = deltas ! n" by (simp add: nth_append)
    from that have tk: "take n (deltas @ [delta]) = take n deltas" by simp
    show ?thesis unfolding P_def nth tk ..
  qed
  have last: "P (deltas @ [delta]) (length deltas) =
      (case fold_edits E deltas c g of
         None \<Rightarrow> False
       | Some (c', g') \<Rightarrow> fst (eng_edit E g' c' delta) = None)"
  proof -
    have nth: "(deltas @ [delta]) ! length deltas = delta" by simp
    have tk: "take (length deltas) (deltas @ [delta]) = deltas" by simp
    show ?thesis unfolding P_def nth tk ..
  qed
  have "edit_throws E (deltas @ [delta]) c g \<longleftrightarrow>
      (\<exists>n < length deltas. P (deltas @ [delta]) n) \<or> P (deltas @ [delta]) (length deltas)"
    unfolding ex by (auto simp: less_Suc_eq)
  also have "\<dots> \<longleftrightarrow> edit_throws E deltas c g \<or> P (deltas @ [delta]) (length deltas)"
    unfolding ex using old by auto
  also have "\<dots> \<longleftrightarrow> fold_edits E (deltas @ [delta]) c g = None"
    unfolding snoc.IH fold_edits_snoc last
    by (auto simp: edit_step_def split: option.splits prod.splits)
  finally show ?case .
qed

lemma fold_edits_two:
  "fold_edits E [delta1, delta2] c g = Some (c2, g2) \<longleftrightarrow>
     (\<exists>c1 g1. eng_edit E g c delta1 = (Some c1, g1) \<and> eng_edit E g1 c1 delta2 = (Some c2, g2))"
  by (auto simp: fold_edits_Cons fold_edits_Nil split: prod.splits option.splits)

lemma Trees_parse_None_iff: "fst (Trees_parse E d s) = None \<longleftrightarrow> engine_throws E d s"
proof (cases "map_of (cache s) (doc_uri d)")
  case None
  obtain r g where p: "eng_parse E (parser s) (doc_text d) None = (r, g)" by force
  show ?thesis
  proof (cases r)
    case None
    with p \<open>map_of (cache s) (doc_uri d) = None\<close> show ?thesis
      by (simp add: Trees_parse_fresh_throws engine_throws_def)
  next
    case (Some c)
    with p \<open>map_of (cache s) (doc_uri d) = None\<close> show ?thesis
      by (simp add: Trees_parse_fresh engine_throws_def Let_def)
  qed
next
  case (Some i)
  show ?thesis
  proof (cases "version i = doc_version d")
    case True
    with Some show ?thesis by (simp add: Trees_parse_hit engine_throws_def)
  next
    case False
    obtain ok c1 g1 called where
      f: "forEach_edit E (concat (edits i)) (content (tree i)) (parser s) = (ok, c1, g1, called)"
      by (metis prod_cases4)
    show ?thesis
    proof (cases ok)
      case False
      with forEach_edit_fold [OF f]
      have "fold_edits E (concat (edits i)) (content (tree i)) (parser s) = None" by simp
      with Some \<open>version i \<noteq> doc_version d\<close> f False show ?thesis
        by (simp add: Trees_parse_edit_throws engine_throws_def edit_throws_iff)
    next
      case True
      with forEach_edit_fold [OF f]
      have fold: "fold_edits E (concat (edits i)) (content (tree i)) (parser s) = Some (c1, g1)"
        by simp
      obtain r g2 where p: "eng_parse E g1 (doc_text d) (Some c1) = (r, g2)" by force
      show ?thesis
      proof (cases r)
        case None
        with Some \<open>version i \<noteq> doc_version d\<close> f True p fold show ?thesis
          by (simp add: Trees_parse_incremental_throws engine_throws_def edit_throws_iff)
      next
        case (Some c2)
        with \<open>map_of (cache s) (doc_uri d) = Some i\<close> \<open>version i \<noteq> doc_version d\<close> f True p fold
        show ?thesis
          by (simp add: Trees_parse_incremental engine_throws_def edit_throws_iff Let_def)
      qed
    qed
  qed
qed

lemma Trees_parse_None_cache:
  assumes "fst (Trees_parse E d s) = None"
  shows "cache (snd (Trees_parse E d s)) = filter (\<lambda>p. fst p \<noteq> doc_uri d) (cache s)"
proof (cases "map_of (cache s) (doc_uri d)")
  case None
  obtain r g where p: "eng_parse E (parser s) (doc_text d) None = (r, g)" by force
  show ?thesis
  proof (cases r)
    case None
    with p \<open>map_of (cache s) (doc_uri d) = None\<close> show ?thesis
      by (simp add: Trees_parse_fresh_throws filter_absent)
  next
    case (Some c)
    with p \<open>map_of (cache s) (doc_uri d) = None\<close> assms show ?thesis
      by (simp add: Trees_parse_fresh Let_def)
  qed
next
  case (Some i)
  show ?thesis
  proof (cases "version i = doc_version d")
    case True
    with Some assms show ?thesis by (simp add: Trees_parse_hit)
  next
    case False
    obtain ok c1 g1 called where
      f: "forEach_edit E (concat (edits i)) (content (tree i)) (parser s) = (ok, c1, g1, called)"
      by (metis prod_cases4)
    show ?thesis
    proof (cases ok)
      case False
      with Some \<open>version i \<noteq> doc_version d\<close> f show ?thesis
        by (simp add: Trees_parse_edit_throws)
    next
      case True
      obtain r g2 where p: "eng_parse E g1 (doc_text d) (Some c1) = (r, g2)" by force
      show ?thesis
      proof (cases r)
        case None
        with Some \<open>version i \<noteq> doc_version d\<close> f True p show ?thesis
          by (simp add: Trees_parse_incremental_throws)
      next
        case (Some c2)
        with \<open>map_of (cache s) (doc_uri d) = Some i\<close> \<open>version i \<noteq> doc_version d\<close> f True p assms
        show ?thesis
          by (simp add: Trees_parse_incremental Let_def)
      qed
    qed
  qed
qed

section \<open>The ownership invariant is kept\<close>

lemma released_once_deleted:
  assumes "released_once r cs"
  shows "DeleteCall r \<in> set cs"
proof -
  from assms obtain before where "rev (filter (about r) cs) = DeleteCall r # before"
    by (auto simp: released_once_def split: list.splits)
  then have "DeleteCall r \<in> set (rev (filter (about r) cs))" by simp
  then show ?thesis by simp
qed

lemma released_once_append_other:
  "filter (about r) new = [] \<Longrightarrow> released_once r (cs @ new) = released_once r cs"
  by (simp add: released_once_def)

lemma released_once_append_delete:
  assumes "DeleteCall r \<notin> set cs"
    and "filter (about r) new = us @ [DeleteCall r]"
    and "DeleteCall r \<notin> set us"
  shows "released_once r (cs @ new)"
  using assms by (auto simp: released_once_def)

lemma owned_step:
  assumes inv: "owned s"
    and calls': "calls s' = calls s @ new"
    and keys: "distinct (map fst (cache s'))"
    and ids: "distinct (cached_ids (cache s'))"
    and mono: "next_id s \<le> next_id s'"
    and kept: "\<And>r. r \<in> set (cached_ids (cache s')) \<Longrightarrow>
        r < next_id s' \<and> DeleteCall r \<notin> set new \<and>
        (r \<in> set (cached_ids (cache s)) \<or> next_id s \<le> r)"
    and fresh: "\<And>r. next_id s \<le> r \<Longrightarrow> r < next_id s' \<Longrightarrow> r \<in> set (cached_ids (cache s'))"
    and dropped: "\<And>r. r \<in> set (cached_ids (cache s)) \<Longrightarrow> r \<notin> set (cached_ids (cache s')) \<Longrightarrow>
        \<exists>us. filter (about r) new = us @ [DeleteCall r] \<and> DeleteCall r \<notin> set us"
    and gone: "\<And>r. r < next_id s \<Longrightarrow> r \<notin> set (cached_ids (cache s)) \<Longrightarrow>
        filter (about r) new = []"
    and bound: "\<And>r x. x \<in> set new \<Longrightarrow> about r x \<Longrightarrow> r < next_id s'"
  shows "owned s'"
proof -
  have a: "\<forall>r \<in> set (cached_ids (cache s')). r < next_id s' \<and> DeleteCall r \<notin> set (calls s')"
  proof
    fix r assume r: "r \<in> set (cached_ids (cache s'))"
    from kept [OF r] have 1: "r < next_id s'" and 2: "DeleteCall r \<notin> set new"
      and 3: "r \<in> set (cached_ids (cache s)) \<or> next_id s \<le> r" by auto
    have "DeleteCall r \<notin> set (calls s)"
    proof
      assume d: "DeleteCall r \<in> set (calls s)"
      from 3 show False
      proof
        assume "r \<in> set (cached_ids (cache s))"
        with inv d show False by (auto simp: owned_def)
      next
        assume "next_id s \<le> r"
        moreover from inv d have "r < next_id s" unfolding owned_def
          by (metis about.simps(3))
        ultimately show False by simp
      qed
    qed
    with 1 2 show "r < next_id s' \<and> DeleteCall r \<notin> set (calls s')"
      by (simp add: calls')
  qed
  have b: "\<forall>r x. x \<in> set (calls s') \<longrightarrow> about r x \<longrightarrow> r < next_id s'"
  proof (intro allI impI)
    fix r x assume "x \<in> set (calls s')" and ab: "about r x"
    then have "x \<in> set (calls s) \<or> x \<in> set new" by (simp add: calls')
    then show "r < next_id s'"
    proof
      assume "x \<in> set (calls s)"
      with inv ab have "r < next_id s" by (auto simp: owned_def)
      with mono show ?thesis by simp
    next
      assume "x \<in> set new"
      with ab show ?thesis by (rule bound [rotated])
    qed
  qed
  have c: "\<forall>r. r < next_id s' \<longrightarrow> r \<notin> set (cached_ids (cache s')) \<longrightarrow> released_once r (calls s')"
  proof (intro allI impI)
    fix r assume lt: "r < next_id s'" and nc: "r \<notin> set (cached_ids (cache s'))"
    have old: "r < next_id s"
    proof (rule ccontr)
      assume "\<not> r < next_id s"
      then have "next_id s \<le> r" by simp
      from fresh [OF this lt] nc show False by simp
    qed
    show "released_once r (calls s')"
    proof (cases "r \<in> set (cached_ids (cache s))")
      case True
      from dropped [OF True nc] obtain us where
        us: "filter (about r) new = us @ [DeleteCall r]" "DeleteCall r \<notin> set us" by blast
      from inv True have "DeleteCall r \<notin> set (calls s)" by (auto simp: owned_def)
      then show ?thesis unfolding calls' using us by (rule released_once_append_delete)
    next
      case False
      from inv old False have "released_once r (calls s)" by (auto simp: owned_def)
      moreover from gone [OF old False] have "filter (about r) new = []" .
      ultimately show ?thesis by (simp add: calls' released_once_append_other)
    qed
  qed
  from keys ids a b c show ?thesis unfolding owned_def by blast
qed

lemma split_at_key:
  assumes "distinct (map fst c)" and "map_of c k = Some v"
  shows "\<exists>xs ys. c = xs @ (k, v) # ys \<and>
           filter (\<lambda>p. fst p \<noteq> k) xs = xs \<and> filter (\<lambda>p. fst p \<noteq> k) ys = ys"
proof -
  from assms(2) have "(k, v) \<in> set c" by (rule map_of_SomeD)
  then obtain xs ys where c: "c = xs @ (k, v) # ys" by (auto dest: split_list)
  with assms(1) have "k \<notin> fst ` set xs" and "k \<notin> fst ` set ys" by auto
  then have "filter (\<lambda>p. fst p \<noteq> k) xs = xs" and "filter (\<lambda>p. fst p \<noteq> k) ys = ys"
    by (auto simp: filter_id_conv)
  with c show ?thesis by auto
qed

lemma owned_hit:
  assumes "owned s" and "map_of (cache s) k = Some i"
  shows "owned (s\<lparr>cache := filter (\<lambda>p. fst p \<noteq> k) (cache s) @ [(k, i)],
                  calls := calls s @ [Returned (tree_id (tree i))]\<rparr>)"
proof -
  from assms have "distinct (map fst (cache s))" by (simp add: owned_def)
  from split_at_key [OF this assms(2)] obtain xs ys where
    c: "cache s = xs @ (k, i) # ys" "filter (\<lambda>p. fst p \<noteq> k) xs = xs"
      "filter (\<lambda>p. fst p \<noteq> k) ys = ys" by blast
  from assms(1) have d: "distinct (map fst (cache s))" "distinct (cached_ids (cache s))"
    "\<forall>r \<in> set (cached_ids (cache s)). r < next_id s"
    by (auto simp: owned_def)
  show ?thesis
  proof (rule owned_step [OF assms(1), where new = "[Returned (tree_id (tree i))]"])
    show "\<And>r. r < next_id s \<Longrightarrow> r \<notin> set (cached_ids (cache s)) \<Longrightarrow>
        filter (about r) [Returned (tree_id (tree i))] = []"
      using c by (auto simp: cached_ids_def)
  qed (use c d in \<open>auto simp: cached_ids_def\<close>)
qed

lemma owned_change:
  assumes "owned s" and "map_of (cache s) k = Some i" and "tree i' = tree i"
  shows "owned (s\<lparr>cache := filter (\<lambda>p. fst p \<noteq> k) (cache s) @ [(k, i')]\<rparr>)"
proof -
  from assms have "distinct (map fst (cache s))" by (simp add: owned_def)
  from split_at_key [OF this assms(2)] obtain xs ys where
    c: "cache s = xs @ (k, i) # ys" "filter (\<lambda>p. fst p \<noteq> k) xs = xs"
      "filter (\<lambda>p. fst p \<noteq> k) ys = ys" by blast
  from assms(1) have d: "distinct (map fst (cache s))" "distinct (cached_ids (cache s))"
    "\<forall>r \<in> set (cached_ids (cache s)). r < next_id s"
    by (auto simp: owned_def)
  show ?thesis
    by (rule owned_step [OF assms(1), where new = "[]"]) (use c d assms(3) in \<open>auto simp: cached_ids_def\<close>)
qed

lemma owned_fresh_throws:
  assumes "owned s"
  shows "owned (s\<lparr>parser := g, calls := calls s @ [ParseCall t None]\<rparr>)"
  by (rule owned_step [OF assms, where new = "[ParseCall t None]"])
     (use assms in \<open>auto simp: owned_def\<close>)

lemma owned_throws:
  assumes "owned s" and "map_of (cache s) k = Some i"
    and "set mid \<subseteq> {ParseCall t (Some (tree_id (tree i)))} \<union> range (EditCall (tree_id (tree i)))"
  shows "owned (s\<lparr>cache := filter (\<lambda>p. fst p \<noteq> k) (cache s), parser := g,
                  calls := calls s @ mid @ [DeleteCall (tree_id (tree i))]\<rparr>)"
proof -
  from assms have "distinct (map fst (cache s))" by (simp add: owned_def)
  from split_at_key [OF this assms(2)] obtain xs ys where
    c: "cache s = xs @ (k, i) # ys" "filter (\<lambda>p. fst p \<noteq> k) xs = xs"
      "filter (\<lambda>p. fst p \<noteq> k) ys = ys" by blast
  from assms(1) have d: "distinct (map fst (cache s))" "distinct (cached_ids (cache s))"
    "\<forall>r \<in> set (cached_ids (cache s)). r < next_id s"
    by (auto simp: owned_def)
  have mid: "\<And>x r. x \<in> set mid \<Longrightarrow> about r x \<Longrightarrow> r = tree_id (tree i)"
    using assms(3) by auto
  have nodel: "\<And>r. DeleteCall r \<notin> set mid" using assms(3) by auto
  show ?thesis
  proof (rule owned_step [OF assms(1), where new = "mid @ [DeleteCall (tree_id (tree i))]"])
    fix r assume "r \<in> set (cached_ids (cache s))"
      and "r \<notin> set (cached_ids (cache (s\<lparr>cache := filter (\<lambda>p. fst p \<noteq> k) (cache s), parser := g,
                  calls := calls s @ mid @ [DeleteCall (tree_id (tree i))]\<rparr>)))"
    then have r: "r = tree_id (tree i)" using c by (auto simp: cached_ids_def)
    show "\<exists>us. filter (about r) (mid @ [DeleteCall (tree_id (tree i))]) = us @ [DeleteCall r] \<and>
        DeleteCall r \<notin> set us"
      using r nodel by auto
  next
    fix r assume "r < next_id s" "r \<notin> set (cached_ids (cache s))"
    then have "r \<noteq> tree_id (tree i)" using c by (auto simp: cached_ids_def)
    then show "filter (about r) (mid @ [DeleteCall (tree_id (tree i))]) = []"
      using mid by (auto simp: filter_empty_conv)
  next
    fix r x assume "x \<in> set (mid @ [DeleteCall (tree_id (tree i))])" "about r x"
    then have "r = tree_id (tree i)" using mid by auto
    then show "r < next_id (s\<lparr>cache := filter (\<lambda>p. fst p \<noteq> k) (cache s), parser := g,
                  calls := calls s @ mid @ [DeleteCall (tree_id (tree i))]\<rparr>)"
      using c d by (auto simp: cached_ids_def)
  next
    fix r assume "r \<in> set (cached_ids (cache (s\<lparr>cache := filter (\<lambda>p. fst p \<noteq> k) (cache s), parser := g,
                  calls := calls s @ mid @ [DeleteCall (tree_id (tree i))]\<rparr>)))"
    then show "r < next_id (s\<lparr>cache := filter (\<lambda>p. fst p \<noteq> k) (cache s), parser := g,
                  calls := calls s @ mid @ [DeleteCall (tree_id (tree i))]\<rparr>) \<and>
         DeleteCall r \<notin> set (mid @ [DeleteCall (tree_id (tree i))]) \<and>
         (r \<in> set (cached_ids (cache s)) \<or> next_id s \<le> r)"
      using c d nodel by (auto simp: cached_ids_def)
  qed (use c d in \<open>auto simp: cached_ids_def\<close>)
qed

lemma cached_ids_append [simp]: "cached_ids (xs @ ys) = cached_ids xs @ cached_ids ys"
  by (simp add: cached_ids_def)

lemma cached_ids_Cons [simp]: "cached_ids ((k, v) # ys) = tree_id (tree v) # cached_ids ys"
  by (simp add: cached_ids_def)

lemma cached_ids_Nil [simp]: "cached_ids [] = []"
  by (simp add: cached_ids_def)

lemma owned_incremental:
  assumes "owned s" and "map_of (cache s) k = Some i"
    and "set mid \<subseteq> range (EditCall (tree_id (tree i)))"
  shows "owned (s\<lparr>cache := filter (\<lambda>p. fst p \<noteq> k) (cache s)
                      @ [(k, \<lparr>version = v, tree = \<lparr>tree_id = next_id s, content = c2\<rparr>, edits = []\<rparr>)],
                  parser := g, next_id := Suc (next_id s),
                  calls := calls s @ mid
                    @ [ParseCall t (Some (tree_id (tree i))), DeleteCall (tree_id (tree i)),
                       Returned (next_id s)],
                  fired := f\<rparr>)"
    (is "owned ?s'")
proof -
  let ?old = "tree_id (tree i)"
  let ?new = "mid @ [ParseCall t (Some ?old), DeleteCall ?old, Returned (next_id s)]"
  from assms have "distinct (map fst (cache s))" by (simp add: owned_def)
  from split_at_key [OF this assms(2)] obtain xs ys where
    c: "cache s = xs @ (k, i) # ys" "filter (\<lambda>p. fst p \<noteq> k) xs = xs"
      "filter (\<lambda>p. fst p \<noteq> k) ys = ys" by blast
  from assms(1) have d: "distinct (map fst (cache s))" "distinct (cached_ids (cache s))"
    "\<forall>r \<in> set (cached_ids (cache s)). r < next_id s"
    by (auto simp: owned_def)
  have ids: "cached_ids (cache s) = cached_ids xs @ ?old # cached_ids ys"
    by (simp add: c)
  have ids': "cached_ids (cache ?s') = cached_ids xs @ cached_ids ys @ [next_id s]"
    by (simp add: c)
  have keys': "map fst (cache ?s') = map fst xs @ map fst ys @ [k]"
    by (simp add: c)
  have old: "?old < next_id s" using d(3) ids by simp
  have lt: "\<forall>r \<in> set (cached_ids xs) \<union> set (cached_ids ys). r < next_id s \<and> r \<noteq> ?old"
    using d(2,3) unfolding ids by auto
  have mid: "\<And>x r. x \<in> set mid \<Longrightarrow> about r x \<Longrightarrow> r = ?old"
    using assms(3) by auto
  have nodel: "\<And>r. DeleteCall r \<notin> set mid" using assms(3) by auto
  show ?thesis
  proof (rule owned_step [OF assms(1), where new = ?new])
    show "calls ?s' = calls s @ ?new" by simp
    show "next_id s \<le> next_id ?s'" by simp
    show "distinct (map fst (cache ?s'))"
      unfolding keys' using d(1) unfolding c(1) by auto
    show "distinct (cached_ids (cache ?s'))"
      unfolding ids' using d(2) lt unfolding ids by auto
  next
    fix r assume "next_id s \<le> r" "r < next_id ?s'"
    then have "r = next_id s" by simp
    then show "r \<in> set (cached_ids (cache ?s'))" unfolding ids' by simp
  next
    fix r assume "r \<in> set (cached_ids (cache s))" and "r \<notin> set (cached_ids (cache ?s'))"
    then have r: "r = ?old" unfolding ids ids' by auto
    have "filter (about r) ?new = (filter (about r) mid @ [ParseCall t (Some ?old)]) @ [DeleteCall r]"
      using r old by auto
    moreover have "DeleteCall r \<notin> set (filter (about r) mid @ [ParseCall t (Some ?old)])"
      using nodel by auto
    ultimately show "\<exists>us. filter (about r) ?new = us @ [DeleteCall r] \<and> DeleteCall r \<notin> set us"
      by blast
  next
    fix r assume "r < next_id s" "r \<notin> set (cached_ids (cache s))"
    then have "r \<noteq> ?old" unfolding ids by auto
    then show "filter (about r) ?new = []"
      using mid \<open>r < next_id s\<close> by (auto simp: filter_empty_conv)
  next
    fix r x assume "x \<in> set ?new" "about r x"
    then have "r = ?old \<or> r = next_id s" using mid by auto
    then show "r < next_id ?s'" using old by auto
  next
    fix r assume "r \<in> set (cached_ids (cache ?s'))"
    then have "r \<in> set (cached_ids xs) \<union> set (cached_ids ys) \<or> r = next_id s"
      unfolding ids' by auto
    then show "r < next_id ?s' \<and> DeleteCall r \<notin> set ?new \<and>
         (r \<in> set (cached_ids (cache s)) \<or> next_id s \<le> r)"
    proof
      assume r: "r \<in> set (cached_ids xs) \<union> set (cached_ids ys)"
      with lt have "r < next_id s" "r \<noteq> ?old" by auto
      with r nodel show ?thesis unfolding ids by auto
    next
      assume "r = next_id s"
      with nodel old show ?thesis by auto
    qed
  qed
qed

lemma owned_fresh_split:
  assumes "owned s" and "k \<notin> fst ` set (cache s)" and "cache s = ev @ keep" and "length ev \<le> 1"
  shows "owned (s\<lparr>cache := keep
                      @ [(k, \<lparr>version = v, tree = \<lparr>tree_id = next_id s, content = c\<rparr>, edits = []\<rparr>)],
                  parser := g, next_id := Suc (next_id s),
                  calls := calls s @ [ParseCall t None]
                    @ map (\<lambda>p. DeleteCall (tree_id (tree (snd p)))) ev
                    @ [Returned (next_id s)],
                  fired := f\<rparr>)"
    (is "owned ?s'")
proof -
  let ?new = "ParseCall t None # map DeleteCall (cached_ids ev) @ [Returned (next_id s)]"
  from assms(1) have d: "distinct (map fst (cache s))" "distinct (cached_ids (cache s))"
    "\<forall>r \<in> set (cached_ids (cache s)). r < next_id s"
    by (auto simp: owned_def)
  have dels: "map (\<lambda>p. DeleteCall (tree_id (tree (snd p)))) ev = map DeleteCall (cached_ids ev)"
    by (simp add: cached_ids_def)
  have ids: "cached_ids (cache s) = cached_ids ev @ cached_ids keep"
    by (simp add: assms(3))
  have ids': "cached_ids (cache ?s') = cached_ids keep @ [next_id s]"
    by simp
  have lt_ev: "r < next_id s" if "r \<in> set (cached_ids ev)" for r
    using d(3) that unfolding ids by auto
  have lt_keep: "r < next_id s" if "r \<in> set (cached_ids keep)" for r
    using d(3) that unfolding ids by auto
  have disj: "r \<notin> set (cached_ids ev)" if "r \<in> set (cached_ids keep)" for r
    using d(2) that unfolding ids by auto
  have dist: "distinct (cached_ids keep)"
    using d(2) unfolding ids by auto
  have calls': "calls ?s' = calls s @ ?new"
    by (simp add: dels)
  have len': "length (cached_ids ev) \<le> 1" using assms(4) by (simp add: cached_ids_def)
  have one: "cached_ids ev = [r]" if "r \<in> set (cached_ids ev)" for r
  proof (cases "cached_ids ev")
    case Nil
    with that show ?thesis by simp
  next
    case (Cons a as)
    with len' have "as = []" by simp
    with Cons that show ?thesis by simp
  qed
  show ?thesis
  proof (rule owned_step [OF assms(1) calls'])
    show "next_id s \<le> next_id ?s'" by simp
    show "distinct (map fst (cache ?s'))"
      using d(1) assms(2) unfolding assms(3) by auto
    show "distinct (cached_ids (cache ?s'))"
      unfolding ids' using dist lt_keep by auto
  next
    fix r assume "next_id s \<le> r" "r < next_id ?s'"
    then have "r = next_id s" by simp
    then show "r \<in> set (cached_ids (cache ?s'))" unfolding ids' by simp
  next
    fix r assume "r \<in> set (cached_ids (cache s))" and "r \<notin> set (cached_ids (cache ?s'))"
    then have r: "r \<in> set (cached_ids ev)" unfolding ids ids' by auto
    from lt_ev [OF r] have "r \<noteq> next_id s" by auto
    with one [OF r] have "filter (about r) ?new = [] @ [DeleteCall r]"
      by simp
    then show "\<exists>us. filter (about r) ?new = us @ [DeleteCall r] \<and> DeleteCall r \<notin> set us"
      by (metis empty_iff empty_set)
  next
    fix r assume r: "r < next_id s" "r \<notin> set (cached_ids (cache s))"
    then have "r \<notin> set (cached_ids ev)" unfolding ids by auto
    then have "filter (about r) (map DeleteCall (cached_ids ev)) = []"
      by (auto simp: filter_empty_conv)
    with r(1) show "filter (about r) ?new = []"
      by simp
  next
    fix r x
    assume "x \<in> set ?new" and "about r x"
    then have "r \<in> set (cached_ids ev) \<or> r = next_id s" by auto
    then have "r < next_id s \<or> r = next_id s" by (auto dest: lt_ev)
    then show "r < next_id ?s'" by auto
  next
    fix r assume "r \<in> set (cached_ids (cache ?s'))"
    then have "r \<in> set (cached_ids keep) \<or> r = next_id s"
      unfolding ids' by auto
    then show "r < next_id ?s' \<and> DeleteCall r \<notin> set ?new \<and>
         (r \<in> set (cached_ids (cache s)) \<or> next_id s \<le> r)"
    proof
      assume r: "r \<in> set (cached_ids keep)"
      from lt_keep [OF r] have "r < next_id s" .
      moreover from disj [OF r] have "r \<notin> set (cached_ids ev)" .
      ultimately show ?thesis using r unfolding ids by auto
    next
      assume r: "r = next_id s"
      with lt_ev have "r \<notin> set (cached_ids ev)" by auto
      with r show ?thesis by auto
    qed
  qed
qed

lemma owned_fresh:
  assumes "owned s" and "map_of (cache s) k = None"
  shows "owned (s\<lparr>cache := (if full then drop 1 (cache s) else cache s)
                      @ [(k, \<lparr>version = v, tree = \<lparr>tree_id = next_id s, content = c\<rparr>, edits = []\<rparr>)],
                  parser := g, next_id := Suc (next_id s),
                  calls := calls s @ [ParseCall t None]
                    @ map (\<lambda>p. DeleteCall (tree_id (tree (snd p))))
                        (if full then take 1 (cache s) else [])
                    @ [Returned (next_id s)],
                  fired := f\<rparr>)"
proof -
  from assms(2) have absent: "k \<notin> fst ` set (cache s)" by (simp add: map_of_eq_None_iff)
  have "cache s = (if full then take 1 (cache s) else []) @ (if full then drop 1 (cache s) else cache s)"
    by simp
  moreover have "length (if full then take 1 (cache s) else []) \<le> 1" by simp
  ultimately show ?thesis by (rule owned_fresh_split [OF assms(1) absent])
qed

lemma owned_fired [simp]: "owned (s\<lparr>fired := f\<rparr>) = owned s"
  by (simp add: owned_def)

lemma owned_parser [simp]: "owned (s\<lparr>parser := g\<rparr>) = owned s"
  by (simp add: owned_def)

lemma owned_new: "owned (Trees_new g)"
  by (simp add: owned_def Trees_new_def released_once_def)

lemma owned_Trees_parse:
  assumes "owned s"
  shows "owned (snd (Trees_parse E d s))"
proof (cases "map_of (cache s) (doc_uri d)")
  case None
  obtain r g where p: "eng_parse E (parser s) (doc_text d) None = (r, g)" by force
  show ?thesis
  proof (cases r)
    case None
    with p \<open>map_of (cache s) (doc_uri d) = None\<close> show ?thesis
      by (simp add: Trees_parse_fresh_throws owned_fresh_throws [OF assms])
  next
    case (Some c)
    with p have "eng_parse E (parser s) (doc_text d) None = (Some c, g)" by simp
    from Trees_parse_fresh [OF \<open>map_of (cache s) (doc_uri d) = None\<close> this]
    show ?thesis unfolding Let_def
      by (simp only: snd_conv owned_fresh [OF assms \<open>map_of (cache s) (doc_uri d) = None\<close>])
  qed
next
  case (Some i)
  show ?thesis
  proof (cases "version i = doc_version d")
    case True
    with Some show ?thesis by (simp add: Trees_parse_hit owned_hit [OF assms])
  next
    case False
    obtain ok c1 g1 called where
      f: "forEach_edit E (concat (edits i)) (content (tree i)) (parser s) = (ok, c1, g1, called)"
      by (metis prod_cases4)
    show ?thesis
    proof (cases ok)
      case False
      have "set (map (EditCall (tree_id (tree i))) called)
          \<subseteq> {ParseCall (doc_text d) (Some (tree_id (tree i)))} \<union> range (EditCall (tree_id (tree i)))"
        by auto
      from owned_throws [OF assms Some this]
      show ?thesis using Some \<open>version i \<noteq> doc_version d\<close> f False
        by (simp add: Trees_parse_edit_throws)
    next
      case True
      obtain r g2 where p: "eng_parse E g1 (doc_text d) (Some c1) = (r, g2)" by force
      show ?thesis
      proof (cases r)
        case None
        have "set (map (EditCall (tree_id (tree i))) (concat (edits i))
                @ [ParseCall (doc_text d) (Some (tree_id (tree i)))])
          \<subseteq> {ParseCall (doc_text d) (Some (tree_id (tree i)))} \<union> range (EditCall (tree_id (tree i)))"
          by auto
        from owned_throws [OF assms Some this]
        show ?thesis using Some \<open>version i \<noteq> doc_version d\<close> f True p None
          by (simp add: Trees_parse_incremental_throws)
      next
        case (Some c2)
        have "set (map (EditCall (tree_id (tree i))) (concat (edits i)))
            \<subseteq> range (EditCall (tree_id (tree i)))"
          by auto
        from owned_incremental [OF assms \<open>map_of (cache s) (doc_uri d) = Some i\<close> this]
        show ?thesis
          using \<open>map_of (cache s) (doc_uri d) = Some i\<close> \<open>version i \<noteq> doc_version d\<close> f True p Some
          by (simp add: Trees_parse_incremental Let_def)
      qed
    qed
  qed
qed

lemma owned_onDidChangeContent2:
  assumes "owned s"
  shows "owned (onDidChangeContent2 positionAt e s)"
proof (cases "map_of (cache s) (doc_uri (ev_document e))")
  case None
  with assms show ?thesis by (simp add: onDidChangeContent2_absent)
next
  case (Some i)
  then show ?thesis
    by (simp add: onDidChangeContent2_present owned_change [OF assms Some])
qed

lemma owned_step_op: "owned s \<Longrightarrow> owned (step E positionAt s x)"
  by (cases x) (simp_all add: step_def getParseTree_def owned_Trees_parse owned_onDidChangeContent2)

lemma owned_run: "owned s \<Longrightarrow> owned (run E positionAt xs s)"
  unfolding run_def by (induction xs arbitrary: s) (simp_all add: owned_step_op)

lemma filter_about_deletes:
  "r \<notin> set xs \<Longrightarrow> filter (about r) (map DeleteCall xs) = []"
  by (induction xs) auto

lemma released_once_dispose:
  assumes "owned s" and "r < next_id s"
  shows "released_once r (calls (Trees_dispose s))"
proof -
  have calls': "calls (Trees_dispose s) = calls s @ map DeleteCall (cached_ids (cache s))"
    by (simp add: Trees_dispose_def lru_values_def cached_ids_def)
  from assms(1) have d: "distinct (cached_ids (cache s))" by (simp add: owned_def)
  show ?thesis
  proof (cases "r \<in> set (cached_ids (cache s))")
    case True
    then obtain xs ys where ids: "cached_ids (cache s) = xs @ r # ys" by (auto dest: split_list)
    with d have "r \<notin> set xs" "r \<notin> set ys" by auto
    then have f: "filter (about r) (map DeleteCall (cached_ids (cache s))) = [] @ [DeleteCall r]"
      unfolding ids by (simp add: filter_about_deletes)
    from assms(1) True have n: "DeleteCall r \<notin> set (calls s)" by (auto simp: owned_def)
    show ?thesis unfolding calls'
      by (rule released_once_append_delete [OF n f]) simp
  next
    case False
    then have "filter (about r) (map DeleteCall (cached_ids (cache s))) = []"
      by (rule filter_about_deletes)
    moreover from assms False have "released_once r (calls s)" by (auto simp: owned_def)
    ultimately show ?thesis unfolding calls' by (simp add: released_once_append_other)
  qed
qed

section \<open>Fired events are consistent with the cache\<close>

lemma consistent_Trees_parse:
  assumes "list_all consistent_event (fired s)"
  shows "list_all consistent_event (fired (snd (Trees_parse E d s)))"
proof (cases "map_of (cache s) (doc_uri d)")
  case None
  obtain r g where p: "eng_parse E (parser s) (doc_text d) None = (r, g)" by force
  show ?thesis
  proof (cases r)
    case None
    with p \<open>map_of (cache s) (doc_uri d) = None\<close> assms show ?thesis
      by (simp add: Trees_parse_fresh_throws)
  next
    case (Some c)
    with p \<open>map_of (cache s) (doc_uri d) = None\<close> assms show ?thesis
      by (simp add: Trees_parse_fresh Let_def consistent_event_def map_of_snoc_absent
          map_of_drop_absent map_add_def)
  qed
next
  case (Some i)
  show ?thesis
  proof (cases "version i = doc_version d")
    case True
    with Some assms show ?thesis by (simp add: Trees_parse_hit)
  next
    case False
    obtain ok c1 g1 called where
      f: "forEach_edit E (concat (edits i)) (content (tree i)) (parser s) = (ok, c1, g1, called)"
      by (metis prod_cases4)
    show ?thesis
    proof (cases ok)
      case False
      with Some \<open>version i \<noteq> doc_version d\<close> f assms show ?thesis
        by (simp add: Trees_parse_edit_throws)
    next
      case True
      obtain r g2 where p: "eng_parse E g1 (doc_text d) (Some c1) = (r, g2)" by force
      show ?thesis
      proof (cases r)
        case None
        with Some \<open>version i \<noteq> doc_version d\<close> f True p assms show ?thesis
          by (simp add: Trees_parse_incremental_throws)
      next
        case (Some c2)
        with \<open>map_of (cache s) (doc_uri d) = Some i\<close> \<open>version i \<noteq> doc_version d\<close> f True p assms
        show ?thesis
          by (simp add: Trees_parse_incremental Let_def consistent_event_def map_of_filter_same
              map_add_def)
      qed
    qed
  qed
qed

lemma fired_onDidChangeContent2: "fired (onDidChangeContent2 positionAt e s) = fired s"
  by (simp add: onDidChangeContent2_def split: prod.splits option.splits)

lemma consistent_step:
  "list_all consistent_event (fired s) \<Longrightarrow> list_all consistent_event (fired (step E positionAt s x))"
  by (cases x) (simp_all add: step_def getParseTree_def consistent_Trees_parse fired_onDidChangeContent2)

section \<open>Facts about the query\<close>

lemma capture_names_query_source:
  "capture_names query_source = [''function'', ''globalVar'', ''const'']"
  by (simp add: query_source_def name_char_def)

lemma queryGlobals_eval:
  assumes "cached = None \<or> cached = Some (compile Q query_source)"
  shows "queryGlobals Q node cached =
     (map (\<lambda>a. \<lparr>gm_text = node_text (cap_node a), gm_type = cap_name a,
                gm_range = asLspRange (cap_node a), gm_node = cap_node a\<rparr>)
        (captures Q (compile Q query_source) node),
      Some (compile Q query_source))"
  using assms by (auto simp: queryGlobals_def parserQuery_def)

section \<open>Example state\<close>

lemma demo_state_eval:
  "demo_state =
     \<lparr>cache = [(''b'', demo_entry_b), (''a'', demo_entry)], parser = 2, next_id = 2,
      calls = [ParseCall ''fun f'' None, Returned 0, ParseCall ''const x'' None, Returned 1],
      fired =
        [(\<lparr>pd_tree = \<lparr>tree_id = 0, content = ''fun f''\<rparr>, pd_document = demo_doc1\<rparr>,
          [(''a'', \<lparr>version = 1, tree = \<lparr>tree_id = 0, content = ''fun f''\<rparr>, edits = []\<rparr>)]),
         (\<lparr>pd_tree = \<lparr>tree_id = 1, content = ''const x''\<rparr>, pd_document = demo_other\<rparr>,
          [(''a'', \<lparr>version = 1, tree = \<lparr>tree_id = 0, content = ''fun f''\<rparr>, edits = []\<rparr>),
           (''b'', demo_entry_b)])],
      listening = True\<rparr>"
  by code_simp

section \<open>C1: the incremental reparse\<close>

text \<open>
  Claim C1. When the cache holds an entry \<open>i\<close> for the document's uri and its version
  differs from the document's, and the engine's calls return, \<^verbatim>\<open>_parse\<close> folds
  every pending edit into the entry's tree, batch after batch and in the order of
  each batch (the fold \<open>fold_edits\<close> of the engine's \<^verbatim>\<open>edit\<close> over the concatenated
  batches, with \<^verbatim>\<open>edit\<close> called once on each edit, in this order), empties the
  pending edits, calls the engine's parse with the document's text and the folded old
  tree (content \<open>c1\<close>, the result of the fold), deletes the old tree, puts the new tree
  and the document's version into the entry under the same uri, fires the event with
  the new tree, and returns the new tree.
\<close>

theorem incremental_reparse:
  assumes "map_of (cache s) (doc_uri d) = Some i"
    and "version i \<noteq> doc_version d"
    and "fold_edits E (concat (edits i)) (content (tree i)) (parser s) = Some (c1, g1)"
    and "eng_parse E g1 (doc_text d) (Some c1) = (Some c2, g2)"
  shows "Trees_parse E d s =
    (let t = \<lparr>tree_id = next_id s, content = c2\<rparr>;
         c' = filter (\<lambda>p. fst p \<noteq> doc_uri d) (cache s)
                @ [(doc_uri d, \<lparr>version = doc_version d, tree = t, edits = []\<rparr>)]
     in (Some t,
         s\<lparr>cache := c', parser := g2, next_id := Suc (next_id s),
           calls := calls s @ map (EditCall (tree_id (tree i))) (concat (edits i))
             @ [ParseCall (doc_text d) (Some (tree_id (tree i))), DeleteCall (tree_id (tree i)),
                Returned (next_id s)],
           fired := fired s @ [(\<lparr>pd_tree = t, pd_document = d\<rparr>, c')]\<rparr>))"
proof -
  from assms(3)
  have "forEach_edit E (concat (edits i)) (content (tree i)) (parser s) =
      (True, c1, g1, concat (edits i))"
    by (rule forEach_edit_ok)
  with assms(1,2) show ?thesis using assms(4) by (rule Trees_parse_incremental)
qed

text \<open>
  Two pending batches of one edit each, with start offsets 4 and 9, on a tree of
  content \<open>[5]\<close>: the fold gives \<open>[5, 4, 9]\<close>, and the new tree, parsed from a text of
  length 5 with that old tree, has content \<open>[5, 5, 4, 9]\<close>.
\<close>

theorem incremental_reparse_witness:
  "map_of (cache demo_marking_state) (doc_uri demo_doc2) = Some demo_marking_entry \<and>
   version demo_marking_entry \<noteq> doc_version demo_doc2 \<and>
   eng_edit demo_marking_engine 1 [5] demo_edit = (Some [5, 4], 2) \<and>
   eng_edit demo_marking_engine 2 [5, 4] demo_far_edit = (Some [5, 4, 9], 3) \<and>
   fold_edits demo_marking_engine (concat (edits demo_marking_entry))
     (content (tree demo_marking_entry)) (parser demo_marking_state) = Some ([5, 4, 9], 3) \<and>
   eng_parse demo_marking_engine 3 (doc_text demo_doc2) (Some [5, 4, 9]) = (Some [5, 5, 4, 9], 4) \<and>
   Trees_parse demo_marking_engine demo_doc2 demo_marking_state =
     (Some \<lparr>tree_id = 1, content = [5, 5, 4, 9]\<rparr>,
      demo_marking_state
        \<lparr>cache := [(''a'', \<lparr>version = 2, tree = \<lparr>tree_id = 1, content = [5, 5, 4, 9]\<rparr>,
                            edits = []\<rparr>)],
         parser := 4, next_id := 2,
         calls := calls demo_marking_state @
           [EditCall 0 demo_edit, EditCall 0 demo_far_edit, ParseCall ''fun g'' (Some 0),
            DeleteCall 0, Returned 1],
         fired := fired demo_marking_state @
           [(\<lparr>pd_tree = \<lparr>tree_id = 1, content = [5, 5, 4, 9]\<rparr>, pd_document = demo_doc2\<rparr>,
             [(''a'', \<lparr>version = 2, tree = \<lparr>tree_id = 1, content = [5, 5, 4, 9]\<rparr>,
                       edits = []\<rparr>)])]\<rparr>)"
proof -
  have st: "cache demo_marking_state = [(''a'', demo_marking_entry)]"
    "parser demo_marking_state = 1" "next_id demo_marking_state = 1"
    by code_simp+
  have h1: "map_of (cache demo_marking_state) (doc_uri demo_doc2) = Some demo_marking_entry"
    by (simp add: st demo_doc2_def)
  have h2: "version demo_marking_entry \<noteq> doc_version demo_doc2"
    by (simp add: demo_marking_entry_def demo_doc2_def)
  have e1: "eng_edit demo_marking_engine 1 [5] demo_edit = (Some [5, 4], 2)"
    and e2: "eng_edit demo_marking_engine 2 [5, 4] demo_far_edit = (Some [5, 4, 9], 3)"
    by (simp_all add: demo_marking_engine_def demo_edit_def demo_far_edit_def)
  have h3: "fold_edits demo_marking_engine (concat (edits demo_marking_entry))
     (content (tree demo_marking_entry)) (parser demo_marking_state) = Some ([5, 4, 9], 3)"
    using e1 e2 by (simp add: st demo_marking_entry_def fold_edits_two)
  have h4: "eng_parse demo_marking_engine 3 (doc_text demo_doc2) (Some [5, 4, 9]) =
      (Some [5, 5, 4, 9], 4)"
    by (simp add: demo_marking_engine_def demo_doc2_def)
  from incremental_reparse [OF h1 h2 h3 h4]
  have "Trees_parse demo_marking_engine demo_doc2 demo_marking_state =
     (Some \<lparr>tree_id = 1, content = [5, 5, 4, 9]\<rparr>,
      demo_marking_state
        \<lparr>cache := [(''a'', \<lparr>version = 2, tree = \<lparr>tree_id = 1, content = [5, 5, 4, 9]\<rparr>,
                            edits = []\<rparr>)],
         parser := 4, next_id := 2,
         calls := calls demo_marking_state @
           [EditCall 0 demo_edit, EditCall 0 demo_far_edit, ParseCall ''fun g'' (Some 0),
            DeleteCall 0, Returned 1],
         fired := fired demo_marking_state @
           [(\<lparr>pd_tree = \<lparr>tree_id = 1, content = [5, 5, 4, 9]\<rparr>, pd_document = demo_doc2\<rparr>,
             [(''a'', \<lparr>version = 2, tree = \<lparr>tree_id = 1, content = [5, 5, 4, 9]\<rparr>,
                       edits = []\<rparr>)])]\<rparr>)"
    by (simp add: Let_def st demo_doc2_def demo_marking_entry_def)
  with h1 h2 e1 e2 h3 h4 show ?thesis by blast
qed

section \<open>C2: a failure of the engine\<close>

text \<open>
  Claim C2. The call \<^verbatim>\<open>_parse\<close> returns \<^verbatim>\<open>undefined\<close> exactly when the engine throws
  during the call: its parse of the text on the fresh path, its \<^verbatim>\<open>edit\<close> on one of
  the pending edits or its parse with the old tree on the incremental path. When the
  engine throws, the cache afterwards is the cache before without the entry of the
  document's uri: that uri has no entry, and every other uri has the entry it had, in
  the order it had.
\<close>

theorem engine_failure:
  "(fst (Trees_parse E d s) = None) = engine_throws E d s \<and>
   (engine_throws E d s \<longrightarrow>
      cache (snd (Trees_parse E d s)) = filter (\<lambda>p. fst p \<noteq> doc_uri d) (cache s) \<and>
      map_of (cache (snd (Trees_parse E d s))) (doc_uri d) = None \<and>
      (\<forall>u. u \<noteq> doc_uri d \<longrightarrow>
         map_of (cache (snd (Trees_parse E d s))) u = map_of (cache s) u))"
proof (intro conjI impI)
  show "(fst (Trees_parse E d s) = None) = engine_throws E d s"
    by (rule Trees_parse_None_iff)
next
  assume "engine_throws E d s"
  then have "fst (Trees_parse E d s) = None" by (simp add: Trees_parse_None_iff)
  then have c: "cache (snd (Trees_parse E d s)) = filter (\<lambda>p. fst p \<noteq> doc_uri d) (cache s)"
    by (rule Trees_parse_None_cache)
  show "cache (snd (Trees_parse E d s)) = filter (\<lambda>p. fst p \<noteq> doc_uri d) (cache s)"
    by (rule c)
  show "map_of (cache (snd (Trees_parse E d s))) (doc_uri d) = None"
    unfolding c by (rule map_of_filter_same)
  show "\<forall>u. u \<noteq> doc_uri d \<longrightarrow>
         map_of (cache (snd (Trees_parse E d s))) u = map_of (cache s) u"
    unfolding c by (simp add: map_of_filter_other)
qed

text \<open>
  The incremental path on the example state (the parse of \<open>bad\<close> throws after the
  pending edit was folded), the fresh path on a new object, the incremental path
  with an edit that throws (it starts at offset 9 in a content of length 5), and a
  call during which the engine does not throw.
\<close>

theorem engine_failure_witness:
  "engine_throws demo_engine demo_doc3 demo_state \<and>
   fold_edits demo_engine (concat (edits demo_entry)) (content (tree demo_entry)) 2 =
     Some (''fun f'', 2) \<and>
   eng_parse demo_engine 2 ''bad'' (Some ''fun f'') = (None, 3) \<and>
   fst (Trees_parse demo_engine demo_doc3 demo_state) = None \<and>
   cache (snd (Trees_parse demo_engine demo_doc3 demo_state)) = [(''b'', demo_entry_b)] \<and>
   map_of (cache (snd (Trees_parse demo_engine demo_doc3 demo_state))) ''a'' = None \<and>
   map_of (cache (snd (Trees_parse demo_engine demo_doc3 demo_state))) ''b'' = Some demo_entry_b \<and>
   engine_throws demo_engine demo_doc3 (Trees_new 0) \<and>
   eng_parse demo_engine 0 ''bad'' None = (None, 1) \<and>
   fst (Trees_parse demo_engine demo_doc3 (Trees_new 0)) = None \<and>
   cache (snd (Trees_parse demo_engine demo_doc3 (Trees_new 0))) = [] \<and>
   engine_throws demo_engine demo_doc2 demo_far_state \<and>
   eng_edit demo_engine 1 ''fun f'' demo_far_edit = (None, 1) \<and>
   fst (Trees_parse demo_engine demo_doc2 demo_far_state) = None \<and>
   cache (snd (Trees_parse demo_engine demo_doc2 demo_far_state)) = [] \<and>
   \<not> engine_throws demo_engine demo_doc2 demo_state \<and>
   fst (Trees_parse demo_engine demo_doc2 demo_state) \<noteq> None"
proof -
  have h: "engine_throws demo_engine demo_doc3 demo_state"
    and h': "engine_throws demo_engine demo_doc3 (Trees_new (0::nat))"
    and h'': "engine_throws demo_engine demo_doc2 demo_far_state"
    and n: "\<not> engine_throws demo_engine demo_doc2 demo_state"
    by code_simp+
  have e: "fold_edits demo_engine (concat (edits demo_entry)) (content (tree demo_entry)) 2 =
      Some (''fun f'', 2)"
    "eng_parse demo_engine 2 ''bad'' (Some ''fun f'') = (None, 3)"
    "eng_parse demo_engine 0 ''bad'' None = (None, 1)"
    "eng_edit demo_engine 1 ''fun f'' demo_far_edit = (None, 1)"
    by (simp_all add: demo_engine_def demo_entry_def demo_edit_def demo_far_edit_def
        fold_edits_Cons fold_edits_Nil)
  have c: "filter (\<lambda>p. fst p \<noteq> doc_uri demo_doc3) (cache demo_state) = [(''b'', demo_entry_b)]"
    "map_of (cache demo_state) ''b'' = Some demo_entry_b"
    by (simp_all add: demo_state_eval demo_doc3_def)
  have c': "filter (\<lambda>p. fst p \<noteq> doc_uri demo_doc3)
      (cache (Trees_new (0::nat) :: (string, nat) trees)) = []"
    by (simp add: Trees_new_def)
  have c'': "filter (\<lambda>p. fst p \<noteq> doc_uri demo_doc2) (cache demo_far_state) = []"
    by code_simp
  have u: "doc_uri demo_doc3 = ''a''" by (simp add: demo_doc3_def)
  note a = engine_failure [of demo_engine demo_doc3 demo_state]
  note a' = engine_failure [of demo_engine demo_doc3 "Trees_new 0"]
  note a'' = engine_failure [of demo_engine demo_doc2 demo_far_state]
  note b = engine_failure [of demo_engine demo_doc2 demo_state]
  from a h c u
  have 1: "fst (Trees_parse demo_engine demo_doc3 demo_state) = None"
    "cache (snd (Trees_parse demo_engine demo_doc3 demo_state)) = [(''b'', demo_entry_b)]"
    "map_of (cache (snd (Trees_parse demo_engine demo_doc3 demo_state))) ''a'' = None"
    "map_of (cache (snd (Trees_parse demo_engine demo_doc3 demo_state))) ''b'' = Some demo_entry_b"
    by simp_all
  from a' h' c'
  have 2: "fst (Trees_parse demo_engine demo_doc3 (Trees_new 0)) = None"
    "cache (snd (Trees_parse demo_engine demo_doc3 (Trees_new 0))) = []"
    by simp_all
  from a'' h'' c''
  have 3: "fst (Trees_parse demo_engine demo_doc2 demo_far_state) = None"
    "cache (snd (Trees_parse demo_engine demo_doc2 demo_far_state)) = []"
    by simp_all
  from b n have 4: "fst (Trees_parse demo_engine demo_doc2 demo_state) \<noteq> None"
    by simp
  from h h' h'' n e 1 2 3 4 show ?thesis by blast
qed

section \<open>C3: every tree is released once\<close>

text \<open>
  Claim C3. Take any sequence of tree requests and change notifications on a new
  object, whatever the engine does, and call \<^verbatim>\<open>dispose()\<close> at the end. Then the trees
  that were released once, with no later call reading or returning them, are
  the trees that were created: none is leaked, none is released twice, none is used
  after its release.
\<close>

theorem release_exactly_once:
  "released_once r (calls (Trees_dispose (run E positionAt xs (Trees_new g)))) \<longleftrightarrow>
   r < next_id (run E positionAt xs (Trees_new g))"
proof
  let ?s = "run E positionAt xs (Trees_new g)"
  have o: "owned ?s" by (rule owned_run [OF owned_new])
  have calls': "calls (Trees_dispose ?s) = calls ?s @ map DeleteCall (cached_ids (cache ?s))"
    by (simp add: Trees_dispose_def lru_values_def cached_ids_def)
  assume "released_once r (calls (Trees_dispose ?s))"
  then have "DeleteCall r \<in> set (calls (Trees_dispose ?s))"
    by (rule released_once_deleted)
  then have "DeleteCall r \<in> set (calls ?s) \<or> r \<in> set (cached_ids (cache ?s))"
    unfolding calls' by auto
  then show "r < next_id ?s"
  proof
    assume "DeleteCall r \<in> set (calls ?s)"
    with o show ?thesis unfolding owned_def by (metis about.simps(3))
  next
    assume "r \<in> set (cached_ids (cache ?s))"
    with o show ?thesis by (simp add: owned_def)
  qed
next
  assume "r < next_id (run E positionAt xs (Trees_new g))"
  then show "released_once r (calls (Trees_dispose (run E positionAt xs (Trees_new g))))"
    by (rule released_once_dispose [OF owned_run [OF owned_new]])
qed

text \<open>
  The example run creates three trees: one is replaced, one is removed when the engine
  throws, and one is still cached when the object is disposed.
\<close>

theorem release_exactly_once_witness:
  "next_id (run demo_engine demo_positionAt demo_ops (Trees_new 0)) = 3 \<and>
   released_once 0 (calls (Trees_dispose (run demo_engine demo_positionAt demo_ops (Trees_new 0)))) \<and>
   released_once 1 (calls (Trees_dispose (run demo_engine demo_positionAt demo_ops (Trees_new 0)))) \<and>
   released_once 2 (calls (Trees_dispose (run demo_engine demo_positionAt demo_ops (Trees_new 0)))) \<and>
   \<not> released_once 3 (calls (Trees_dispose (run demo_engine demo_positionAt demo_ops (Trees_new 0))))"
proof -
  have n: "next_id (run demo_engine demo_positionAt demo_ops (Trees_new 0)) = 3"
    by code_simp
  from n show ?thesis
    by (simp add: release_exactly_once [of _ demo_engine demo_positionAt demo_ops 0])
qed

section \<open>C4: the cache hit\<close>

text \<open>
  Claim C4. When the cache holds an entry for the document's uri whose version equals
  the document's version, \<^verbatim>\<open>_parse\<close> returns the tree of that entry, the same object,
  and does no parse work: the engine is not called (its state is unchanged, no tree is
  created, and the only call recorded is the handing out of the tree).
\<close>

theorem cache_hit:
  assumes "map_of (cache s) (doc_uri d) = Some i" and "version i = doc_version d"
  shows "fst (Trees_parse E d s) = Some (tree i) \<and>
         parser (snd (Trees_parse E d s)) = parser s \<and>
         next_id (snd (Trees_parse E d s)) = next_id s \<and>
         calls (snd (Trees_parse E d s)) = calls s @ [Returned (tree_id (tree i))]"
  by (simp add: Trees_parse_hit [OF assms])

theorem cache_hit_witness:
  "map_of (cache demo_state) (doc_uri demo_other) = Some demo_entry_b \<and>
   version demo_entry_b = doc_version demo_other \<and>
   fst (Trees_parse demo_engine demo_other demo_state) =
     Some \<lparr>tree_id = 1, content = ''const x''\<rparr> \<and>
   parser (snd (Trees_parse demo_engine demo_other demo_state)) = 2 \<and>
   next_id (snd (Trees_parse demo_engine demo_other demo_state)) = 2 \<and>
   calls (snd (Trees_parse demo_engine demo_other demo_state)) =
     [ParseCall ''fun f'' None, Returned 0, ParseCall ''const x'' None, Returned 1, Returned 1]"
proof -
  have h1: "map_of (cache demo_state) (doc_uri demo_other) = Some demo_entry_b"
    by (simp add: demo_state_eval demo_other_def)
  have h2: "version demo_entry_b = doc_version demo_other"
    by (simp add: demo_entry_b_def demo_other_def)
  from cache_hit [OF h1 h2, of demo_engine] h1 h2 show ?thesis
    by (simp add: demo_state_eval demo_entry_b_def)
qed

section \<open>C5: the fresh parse\<close>

text \<open>
  Claim C5. When the cache holds no entry for the document's uri and the engine's
  parse of the full text returns, \<^verbatim>\<open>_parse\<close> makes one call of the engine's parse,
  with the text and no old tree, creates the entry of the document's version, the new
  tree and no pending edits, inserts it into the cache as the most recent entry (the
  least recent one is evicted and its tree deleted when the cache is full), fires
  the event with the new tree, and returns that tree.
\<close>

theorem fresh_parse:
  assumes "map_of (cache s) (doc_uri d) = None"
    and "eng_parse E (parser s) (doc_text d) None = (Some c, g)"
  shows "Trees_parse E d s =
    (let t = \<lparr>tree_id = next_id s, content = c\<rparr>;
         info = \<lparr>version = doc_version d, tree = t, edits = []\<rparr>;
         full = (cache_size < length (cache s) + 1);
         c' = (if full then drop 1 (cache s) else cache s) @ [(doc_uri d, info)]
     in (Some t,
         s\<lparr>cache := c', parser := g, next_id := Suc (next_id s),
           calls := calls s @ [ParseCall (doc_text d) None]
             @ map (\<lambda>p. DeleteCall (tree_id (tree (snd p)))) (if full then take 1 (cache s) else [])
             @ [Returned (next_id s)],
           fired := fired s @ [(\<lparr>pd_tree = t, pd_document = d\<rparr>, c')]\<rparr>))"
  using assms by (rule Trees_parse_fresh)

theorem fresh_parse_witness:
  "map_of (cache (Trees_new (0::nat) :: (string, nat) trees)) (doc_uri demo_doc1) = None \<and>
   eng_parse demo_engine (parser (Trees_new (0::nat) :: (string, nat) trees)) (doc_text demo_doc1)
     None = (Some ''fun f'', 1) \<and>
   Trees_parse demo_engine demo_doc1 (Trees_new 0) =
     (Some \<lparr>tree_id = 0, content = ''fun f''\<rparr>,
      \<lparr>cache = [(''a'', \<lparr>version = 1, tree = \<lparr>tree_id = 0, content = ''fun f''\<rparr>, edits = []\<rparr>)],
       parser = 1, next_id = 1,
       calls = [ParseCall ''fun f'' None, Returned 0],
       fired = [(\<lparr>pd_tree = \<lparr>tree_id = 0, content = ''fun f''\<rparr>, pd_document = demo_doc1\<rparr>,
                 [(''a'', \<lparr>version = 1, tree = \<lparr>tree_id = 0, content = ''fun f''\<rparr>,
                           edits = []\<rparr>)])],
       listening = True\<rparr>)"
proof -
  have h1: "map_of (cache (Trees_new (0::nat) :: (string, nat) trees)) (doc_uri demo_doc1) = None"
    by (simp add: Trees_new_def)
  have h2: "eng_parse demo_engine (parser (Trees_new (0::nat) :: (string, nat) trees))
      (doc_text demo_doc1) None = (Some ''fun f'', 1)"
    by (simp add: Trees_new_def demo_engine_def demo_doc1_def)
  from fresh_parse [OF h1 h2] h1 h2 show ?thesis
    by (simp add: Let_def Trees_new_def demo_doc1_def cache_size_def)
qed

section \<open>C6: change notifications\<close>



section \<open>C7: the event comes after the update\<close>

text \<open>
  Claim C7. In every run of a new object, every parse-completed event that was fired
  found the cache, at the moment it was fired, holding under the uri of the event's
  document an entry with the event's tree and the version of the event's document.
\<close>

theorem event_after_update:
  "list_all consistent_event (fired (run E positionAt xs (Trees_new g)))"
proof -
  have "list_all consistent_event (fired s) \<Longrightarrow>
        list_all consistent_event (fired (run E positionAt xs s))" for s :: "('a, 'b) trees"
    unfolding run_def by (induction xs arbitrary: s) (simp_all add: consistent_step)
  then show ?thesis by (simp add: Trees_new_def)
qed

text \<open>The example run fires three events.\<close>

theorem event_after_update_witness:
  "length (fired (run demo_engine demo_positionAt demo_ops (Trees_new 0))) = 3 \<and>
   list_all consistent_event (fired (run demo_engine demo_positionAt demo_ops (Trees_new 0)))"
proof -
  have "length (fired (run demo_engine demo_positionAt demo_ops (Trees_new 0))) = 3"
    by code_simp
  with event_after_update [of demo_engine demo_positionAt demo_ops 0] show ?thesis by simp
qed

section \<open>C8: the query gives the same matches every time\<close>



section \<open>C9: the cache hit changes nothing but recency\<close>

text \<open>
  Claim C9. When the cache holds an entry for the document's uri whose version equals
  the document's version, \<^verbatim>\<open>_parse\<close> fires no event, and every uri has after the call
  the entry it had before, with the same tree, version and pending edits; the entry
  of the document's uri has become the most recent one.
\<close>

theorem cache_hit_frame:
  assumes "map_of (cache s) (doc_uri d) = Some i" and "version i = doc_version d"
  shows "fired (snd (Trees_parse E d s)) = fired s \<and>
         map_of (cache (snd (Trees_parse E d s))) = map_of (cache s) \<and>
         cache (snd (Trees_parse E d s)) =
           filter (\<lambda>p. fst p \<noteq> doc_uri d) (cache s) @ [(doc_uri d, i)]"
proof -
  have c: "cache (snd (Trees_parse E d s)) =
      filter (\<lambda>p. fst p \<noteq> doc_uri d) (cache s) @ [(doc_uri d, i)]"
    and f: "fired (snd (Trees_parse E d s)) = fired s"
    by (simp_all add: Trees_parse_hit [OF assms])
  have "map_of (cache (snd (Trees_parse E d s))) = map_of (cache s)"
    unfolding c by (rule map_of_touch [OF assms(1)])
  with c f show ?thesis by simp
qed

text \<open>A hit on the older of the two entries of the example state: it moves to the end.\<close>

theorem cache_hit_frame_witness:
  "map_of (cache demo_state) (doc_uri demo_other) = Some demo_entry_b \<and>
   version demo_entry_b = doc_version demo_other \<and>
   fired (snd (Trees_parse demo_engine demo_other demo_state)) = fired demo_state \<and>
   map_of (cache (snd (Trees_parse demo_engine demo_other demo_state))) ''a'' = Some demo_entry \<and>
   map_of (cache (snd (Trees_parse demo_engine demo_other demo_state))) ''b'' = Some demo_entry_b \<and>
   cache (snd (Trees_parse demo_engine demo_other demo_state)) =
     [(''a'', demo_entry), (''b'', demo_entry_b)]"
proof -
  have h1: "map_of (cache demo_state) (doc_uri demo_other) = Some demo_entry_b"
    by (simp add: demo_state_eval demo_other_def)
  have h2: "version demo_entry_b = doc_version demo_other"
    by (simp add: demo_entry_b_def demo_other_def)
  from cache_hit_frame [OF h1 h2, of demo_engine] h1 h2 show ?thesis
    by (simp add: demo_state_eval demo_other_def)
qed

section \<open>C10: the shape of a match\<close>

text \<open>
  Claim C10. The pattern source declares the capture names \<open>function\<close>, \<open>globalVar\<close>
  and \<open>const\<close> and no other. So, with an engine that names its captures after the
  captures of the pattern, the type of every match of \<^verbatim>\<open>queryGlobals\<close> is one of these
  three; and the text and the range of a match are those of the captured node, the
  range being the node's start and end positions.
\<close>

theorem query_match_shape:
  assumes "cached = None \<or> cached = Some (compile Q query_source)"
    and "\<forall>a \<in> set (captures Q (compile Q query_source) node).
           cap_name a \<in> set (capture_names query_source)"
  shows "\<forall>m \<in> set (fst (queryGlobals Q node cached)).
           gm_type m \<in> {''function'', ''globalVar'', ''const''} \<and>
           gm_text m = node_text (gm_node m) \<and>
           gm_range m = asLspRange (gm_node m) \<and>
           gm_range m =
             \<lparr>range_start = \<lparr>line = row (node_startPosition (gm_node m)),
                              character = column (node_startPosition (gm_node m))\<rparr>,
              range_end = \<lparr>line = row (node_endPosition (gm_node m)),
                            character = column (node_endPosition (gm_node m))\<rparr>\<rparr> \<and>
           (\<exists>a \<in> set (captures Q (compile Q query_source) node).
              gm_node m = cap_node a \<and> gm_type m = cap_name a)"
  using assms(2)
  by (auto simp: queryGlobals_eval [OF assms(1)] capture_names_query_source asLspRange_def)

theorem query_match_shape_witness:
  "list_all (\<lambda>a. cap_name a \<in> set (capture_names query_source))
     (captures demo_query_engine (compile demo_query_engine query_source) demo_node) \<and>
   fst (queryGlobals demo_query_engine demo_node None) \<noteq> [] \<and>
   list_all (\<lambda>m. gm_type m \<in> {''function'', ''globalVar'', ''const''} \<and>
                 gm_text m = ''main'' \<and>
                 gm_range m = \<lparr>range_start = \<lparr>line = 2, character = 4\<rparr>,
                               range_end = \<lparr>line = 2, character = 8\<rparr>\<rparr>)
     (fst (queryGlobals demo_query_engine demo_node None))"
proof -
  have h: "(None :: string list option) = None \<or>
      None = Some (compile demo_query_engine query_source)" by simp
  have c: "\<forall>a \<in> set (captures demo_query_engine (compile demo_query_engine query_source) demo_node).
      cap_name a \<in> set (capture_names query_source)"
    by (simp add: demo_query_engine_def capture_names_query_source)
  have n: "fst (queryGlobals demo_query_engine demo_node None) \<noteq> []"
    by (simp add: queryGlobals_def parserQuery_def demo_query_engine_def capture_names_query_source)
  have t: "\<forall>m \<in> set (fst (queryGlobals demo_query_engine demo_node None)). gm_node m = demo_node"
    by (simp add: queryGlobals_def parserQuery_def demo_query_engine_def capture_names_query_source)
  have nd: "node_text demo_node = ''main''"
    "row (node_startPosition demo_node) = 2" "column (node_startPosition demo_node) = 4"
    "row (node_endPosition demo_node) = 2" "column (node_endPosition demo_node) = 8"
    by (simp_all add: demo_node_def)
  have "gm_type m \<in> {''function'', ''globalVar'', ''const''} \<and> gm_text m = ''main'' \<and>
      gm_range m = \<lparr>range_start = \<lparr>line = 2, character = 4\<rparr>,
                    range_end = \<lparr>line = 2, character = 8\<rparr>\<rparr>"
    if m: "m \<in> set (fst (queryGlobals demo_query_engine demo_node None))" for m
  proof -
    from t m have "gm_node m = demo_node" by blast
    with bspec [OF query_match_shape [OF h c] m] show ?thesis
      by (simp add: nd asLspRange_def)
  qed
  with c n show ?thesis by (simp add: list_all_iff)
qed

end
